theory Spec2Isabelle
  imports Complex_Main "HOL-Library.Word"
begin

section \<open>Data model\<close>

text \<open>
  The image-processing module works on \<open>ImageData\<close> rasters: a width, a height and a
  flat \<open>Uint8ClampedArray\<close> holding four bytes (R, G, B, A) per pixel in row-major order.
  JavaScript numbers are idealised as mathematical reals (thresholds, HSV components,
  kernel sizes); loop counters and array indices are natural numbers, window arithmetic
  that may go below zero is done on integers.
\<close>

type_synonym byte = "8 word"

record ImageData =
  width :: nat
  height :: nat
  data :: "byte list"

record ProcessingParams =
  brightnessThreshold :: real
  saturationThreshold :: real
  meanSaturationThreshold :: real
  blackPixelBrightnessThreshold :: real
  blackPixelSaturationThreshold :: real
  structuringElementSize :: real
  blurKernelSize :: real
  morphOpeningKernelSize :: real

text \<open>
  The application calls \<open>processImage\<close> with the parameter object extended by the
  painted mask (\<open>{ ...parameters, manualWhitelistMask: manualWhitelistMask }\<close>, where the
  mask is \<open>boolean[] | undefined\<close>). The extended object is an extension of the
  parameter record; \<open>processImage\<close> is defined on every extension of
  \<open>ProcessingParams\<close>, as TypeScript's structural typing allows.
\<close>

record ParamsWithWhitelist = ProcessingParams +
  manualWhitelistMask :: "bool list option"

definition defaultParams :: ProcessingParams where
  "defaultParams =
     \<lparr>brightnessThreshold = 78, saturationThreshold = 16, meanSaturationThreshold = 16,
      blackPixelBrightnessThreshold = 25, blackPixelSaturationThreshold = 31,
      structuringElementSize = 25, blurKernelSize = 12, morphOpeningKernelSize = 3\<rparr>"

record Stats =
  brightPixels :: nat
  lowSaturationPixels :: nat
  candidateArtifacts :: nat
  lowSaturationAreas :: nat
  nearBlackPixels :: nat
  replacedPixels :: nat
  blackPixels :: nat
  thresholds :: ProcessingParams

record ProcessingResult =
  processedImage :: ImageData
  visualizationImage :: ImageData
  stats :: Stats

text \<open>
  The mutable local variables of \<open>processImage\<close>, threaded through its loops.
\<close>

record Locals =
  result :: "byte list"
  visualization :: "byte list"
  statsVar :: Stats
  hsvValues :: "(real \<times> real \<times> real) list"
  blackPixelsMask :: "bool list"
  initialMask :: "bool list"
  finalMask :: "bool list"
  openedMask :: "bool list"

subsection \<open>Array accesses\<close>

text \<open>
  A \<open>boolean[]\<close> read in a condition: an index past the end gives \<open>undefined\<close>, which is
  falsy. A write past the end extends the array; the holes it leaves read as falsy and
  are represented by \<open>False\<close>. A write past the end of a typed array is ignored, which is
  what \<open>xs[i := v]\<close> does.
\<close>

definition mask_at :: "bool list \<Rightarrow> nat \<Rightarrow> bool" where
  "mask_at msk i = (i < length msk \<and> msk ! i)"

definition js_set :: "bool list \<Rightarrow> nat \<Rightarrow> bool \<Rightarrow> bool list" where
  "js_set msk i v =
     (if i < length msk then msk[i := v]
      else msk @ replicate (i - length msk) False @ [v])"

text \<open>
  The index range of \<open>for (k = Math.max(0, c - half); k < Math.min(bound, c + half + 1); k++)\<close>.
\<close>

definition kernelRange :: "nat \<Rightarrow> nat \<Rightarrow> int \<Rightarrow> nat list" where
  "kernelRange c bound half =
     [nat (max 0 (int c - half)) ..< nat (min (int bound) (int c + half + 1))]"

text \<open>
  The platform's \<open>ImageData(data, sw, sh)\<close> constructor validates its arguments (HTML
  Standard, initialising an \<open>ImageData\<close> object): it throws \<open>InvalidStateError\<close> when
  the byte length of the data is not a nonzero multiple of four, and \<open>IndexSizeError\<close>
  when the pixel count is not a multiple of \<open>sw\<close> (in particular when \<open>sw\<close> is 0) or when
  \<open>sh\<close> is not the resulting height. So no \<open>ImageData\<close> has a zero width or height.
\<close>

datatype DOMException = InvalidStateError | IndexSizeError

definition newImageData :: "byte list \<Rightarrow> nat \<Rightarrow> nat \<Rightarrow> DOMException + ImageData" where
  "newImageData d sw sh =
     (if length d = 0 \<or> length d mod 4 \<noteq> 0 then Inl InvalidStateError
      else if sw = 0 \<or> (length d div 4) mod sw \<noteq> 0 then Inl IndexSizeError
      else if sh \<noteq> (length d div 4) div sw then Inl IndexSizeError
      else Inr \<lparr>width = sw, height = sh, data = d\<rparr>)"

section \<open>Colour conversion\<close>

definition rgbToHsv :: "byte \<Rightarrow> byte \<Rightarrow> byte \<Rightarrow> real \<times> real \<times> real" where
  "rgbToHsv r0 g0 b0 =
     (let r = real (unat r0) / 255;
          g = real (unat g0) / 255;
          b = real (unat b0) / 255;
          mx = max r (max g b);
          mn = min r (min g b);
          d = mx - mn;
          s = (if mx = 0 then 0 else d / mx);
          v = mx;
          h = (if mx \<noteq> mn
               then (if mx = r then (g - b) / d + (if g < b then 6 else 0)
                     else if mx = g then (b - r) / d + 2
                     else (r - g) / d + 4) / 6
               else 0)
      in (h * 360, s * 100, v * 100))"

definition hsvS :: "real \<times> real \<times> real \<Rightarrow> real" where
  "hsvS hsv = fst (snd hsv)"

definition hsvV :: "real \<times> real \<times> real \<Rightarrow> real" where
  "hsvV hsv = snd (snd hsv)"

section \<open>Local mean saturation\<close>

definition meanSatStep ::
  "byte list \<Rightarrow> (real \<times> real \<times> real) list \<Rightarrow> nat \<Rightarrow> nat \<Rightarrow> nat \<Rightarrow> real \<times> nat \<Rightarrow> real \<times> nat" where
  "meanSatStep dat hsvs w ky kx acc =
     (let idx = (ky * w + kx) * 4;
          pixelIndex = idx div 4;
          a = dat ! (idx + 3)
      in (if a > 0 then fst acc + hsvS (hsvs ! pixelIndex) else fst acc, snd acc + 1))"

definition calculateLocalMeanSaturation ::
  "byte list \<Rightarrow> (real \<times> real \<times> real) list \<Rightarrow> nat \<Rightarrow> nat \<Rightarrow> nat \<Rightarrow> nat \<Rightarrow> real \<Rightarrow> real" where
  "calculateLocalMeanSaturation dat hsvs w h x y kernelSize =
     (let halfKernel = \<lfloor>kernelSize / 2\<rfloor>;
          acc = fold (\<lambda>ky. fold (meanSatStep dat hsvs w ky) (kernelRange x w halfKernel))
                  (kernelRange y h halfKernel) (0, 0);
          totalSaturation = fst acc;
          count = snd acc
      in if count > 0 then totalSaturation / real count else 0)"

section \<open>Proximity to black pixels\<close>

text \<open>
  The two nested loops of \<open>isNearBlackPixelOptimized\<close>, with their \<open>continue\<close> and their
  early \<open>return true\<close>.
\<close>

fun nearBlackRow :: "bool list \<Rightarrow> nat \<Rightarrow> nat \<Rightarrow> nat \<Rightarrow> int \<Rightarrow> nat \<Rightarrow> nat list \<Rightarrow> bool" where
  "nearBlackRow msk w x y radiusSquared ky [] = False"
| "nearBlackRow msk w x y radiusSquared ky (kx # kxs) =
     (let dx = int kx - int x;
          dy = int ky - int y;
          distanceSquared = dx * dx + dy * dy
      in if distanceSquared > radiusSquared then nearBlackRow msk w x y radiusSquared ky kxs
         else if mask_at msk (ky * w + kx) then True
         else nearBlackRow msk w x y radiusSquared ky kxs)"

fun nearBlackRows :: "bool list \<Rightarrow> nat \<Rightarrow> nat \<Rightarrow> nat \<Rightarrow> int \<Rightarrow> nat list \<Rightarrow> nat list \<Rightarrow> bool" where
  "nearBlackRows msk w x y radiusSquared kxs [] = False"
| "nearBlackRows msk w x y radiusSquared kxs (ky # kys) =
     (if nearBlackRow msk w x y radiusSquared ky kxs then True
      else nearBlackRows msk w x y radiusSquared kxs kys)"

definition isNearBlackPixelOptimized ::
  "bool list \<Rightarrow> nat \<Rightarrow> nat \<Rightarrow> nat \<Rightarrow> nat \<Rightarrow> real \<Rightarrow> bool" where
  "isNearBlackPixelOptimized msk w h x y structureSize =
     (let halfSize = \<lfloor>structureSize / 2\<rfloor>;
          radiusSquared = halfSize * halfSize
      in nearBlackRows msk w x y radiusSquared
           (kernelRange x w halfSize) (kernelRange y h halfSize))"

section \<open>Binary morphology\<close>

text \<open>
  In \<open>erodeMask\<close> and \<open>dilateMask\<close> the inner pair of loops computes a flag and leaves
  with \<open>break\<close> as soon as the flag is decided; the flag is the value of \<open>list_all\<close>
  (respectively \<open>list_ex\<close>) over the window.
\<close>

definition erodeStep :: "bool list \<Rightarrow> nat \<Rightarrow> nat \<Rightarrow> int \<Rightarrow> nat \<Rightarrow> nat \<Rightarrow> bool list \<Rightarrow> bool list" where
  "erodeStep msk w h halfKernel y x erodedMask =
     (let allTrue = list_all (\<lambda>ky. list_all (\<lambda>kx. mask_at msk (ky * w + kx))
                       (kernelRange x w halfKernel)) (kernelRange y h halfKernel)
      in if allTrue then js_set erodedMask (y * w + x) True else erodedMask)"

definition erodeMask :: "bool list \<Rightarrow> nat \<Rightarrow> nat \<Rightarrow> real \<Rightarrow> bool list" where
  "erodeMask msk w h kernelSize =
     (let erodedMask = replicate (length msk) False;
          halfKernel = \<lfloor>kernelSize / 2\<rfloor>
      in fold (\<lambda>y. fold (erodeStep msk w h halfKernel y) [0..<w]) [0..<h] erodedMask)"

definition dilateStep :: "bool list \<Rightarrow> nat \<Rightarrow> nat \<Rightarrow> int \<Rightarrow> nat \<Rightarrow> nat \<Rightarrow> bool list \<Rightarrow> bool list" where
  "dilateStep msk w h halfKernel y x dilatedMask =
     (let anyTrue = list_ex (\<lambda>ky. list_ex (\<lambda>kx. mask_at msk (ky * w + kx))
                       (kernelRange x w halfKernel)) (kernelRange y h halfKernel)
      in if anyTrue then js_set dilatedMask (y * w + x) True else dilatedMask)"

definition dilateMask :: "bool list \<Rightarrow> nat \<Rightarrow> nat \<Rightarrow> real \<Rightarrow> bool list" where
  "dilateMask msk w h kernelSize =
     (let dilatedMask = replicate (length msk) False;
          halfKernel = \<lfloor>kernelSize / 2\<rfloor>
      in fold (\<lambda>y. fold (dilateStep msk w h halfKernel y) [0..<w]) [0..<h] dilatedMask)"

definition morphologicalOpenMask :: "bool list \<Rightarrow> nat \<Rightarrow> nat \<Rightarrow> real \<Rightarrow> bool list" where
  "morphologicalOpenMask msk w h kernelSize =
     (let eroded = erodeMask msk w h kernelSize
      in dilateMask eroded w h kernelSize)"

section \<open>The processing pipeline\<close>

definition hsvLoop :: "byte list \<Rightarrow> (real \<times> real \<times> real) list" where
  "hsvLoop dat =
     map (\<lambda>j. rgbToHsv (dat ! (4 * j)) (dat ! (4 * j + 1)) (dat ! (4 * j + 2)))
       [0..<(length dat + 3) div 4]"

definition copyLoop :: "byte list \<Rightarrow> byte list" where
  "copyLoop dat = map (\<lambda>i. dat ! i) [0..<length dat]"

definition initStats :: "'a ProcessingParams_scheme \<Rightarrow> Stats" where
  "initStats params =
     \<lparr>brightPixels = 0, lowSaturationPixels = 0, candidateArtifacts = 0,
      lowSaturationAreas = 0, nearBlackPixels = 0, replacedPixels = 0, blackPixels = 0,
      thresholds =
        \<lparr>brightnessThreshold = brightnessThreshold params,
         saturationThreshold = saturationThreshold params,
         meanSaturationThreshold = meanSaturationThreshold params,
         blackPixelBrightnessThreshold = blackPixelBrightnessThreshold params,
         blackPixelSaturationThreshold = blackPixelSaturationThreshold params,
         structuringElementSize = structuringElementSize params,
         blurKernelSize = blurKernelSize params,
         morphOpeningKernelSize = morphOpeningKernelSize params\<rparr>\<rparr>"

text \<open>First loop: the black-pixel mask, its counter and the red colouring.\<close>

definition blackStep :: "byte list \<Rightarrow> 'a ProcessingParams_scheme \<Rightarrow> nat \<Rightarrow> Locals \<Rightarrow> Locals" where
  "blackStep dat params pixelIndex l =
     (let idx = pixelIndex * 4;
          a = dat ! (idx + 3)
      in if a = 0 then l
         else
           let hsv = hsvValues l ! pixelIndex;
               v = hsvV hsv;
               s = hsvS hsv;
               isBlack = (v < blackPixelBrightnessThreshold params \<and>
                          s < blackPixelSaturationThreshold params);
               l1 = l\<lparr>blackPixelsMask := js_set (blackPixelsMask l) pixelIndex isBlack\<rparr>
           in if isBlack
              then l1\<lparr>statsVar := (statsVar l1)\<lparr>blackPixels := blackPixels (statsVar l1) + 1\<rparr>,
                      visualization := (visualization l1)[idx := 255, idx + 1 := 0, idx + 2 := 0]\<rparr>
              else l1)"

text \<open>Second loop: brightness, saturation and local mean saturation give the initial mask.\<close>

definition initialStep ::
  "byte list \<Rightarrow> nat \<Rightarrow> nat \<Rightarrow> 'a ProcessingParams_scheme \<Rightarrow> nat \<Rightarrow> nat \<Rightarrow> Locals \<Rightarrow> Locals" where
  "initialStep dat w h params y x l =
     (let idx = (y * w + x) * 4;
          pixelIndex = idx div 4;
          a = dat ! (idx + 3)
      in if a = 0 then l
         else
           let hsv = hsvValues l ! pixelIndex;
               s = hsvS hsv;
               v = hsvV hsv;
               isBright = (v > brightnessThreshold params);
               l1 = (if isBright
                     then l\<lparr>statsVar := (statsVar l)\<lparr>brightPixels := brightPixels (statsVar l) + 1\<rparr>\<rparr>
                     else l);
               isLowSaturation = (s < saturationThreshold params);
               l2 = (if isLowSaturation
                     then l1\<lparr>statsVar := (statsVar l1)
                               \<lparr>lowSaturationPixels := lowSaturationPixels (statsVar l1) + 1\<rparr>\<rparr>
                     else l1);
               isCandidateArtifact = (isBright \<and> isLowSaturation)
           in if isCandidateArtifact
              then
                let l3 = l2\<lparr>statsVar := (statsVar l2)
                              \<lparr>candidateArtifacts := candidateArtifacts (statsVar l2) + 1\<rparr>\<rparr>;
                    meanSat = calculateLocalMeanSaturation dat (hsvValues l3) w h x y
                                (blurKernelSize params)
                in if meanSat < meanSaturationThreshold params
                   then l3\<lparr>statsVar := (statsVar l3)
                              \<lparr>lowSaturationAreas := lowSaturationAreas (statsVar l3) + 1\<rparr>,
                           initialMask := js_set (initialMask l3) pixelIndex True\<rparr>
                   else l3
              else l2)"

text \<open>Third loop: candidates near a black pixel are whitelisted, the others form the final mask.\<close>

definition finalStep ::
  "nat \<Rightarrow> nat \<Rightarrow> 'a ProcessingParams_scheme \<Rightarrow> nat \<Rightarrow> nat \<Rightarrow> Locals \<Rightarrow> Locals" where
  "finalStep w h params y x l =
     (let pixelIndex = y * w + x
      in if \<not> mask_at (initialMask l) pixelIndex then l
         else
           let isNearBlack = isNearBlackPixelOptimized (blackPixelsMask l) w h x y
                               (structuringElementSize params)
           in if isNearBlack
              then
                let idx = pixelIndex * 4
                in l\<lparr>statsVar := (statsVar l)\<lparr>nearBlackPixels := nearBlackPixels (statsVar l) + 1\<rparr>,
                     visualization := (visualization l)[idx := 0, idx + 1 := 0, idx + 2 := 255]\<rparr>
              else l\<lparr>finalMask := js_set (finalMask l) pixelIndex True,
                     statsVar := (statsVar l)\<lparr>replacedPixels := replacedPixels (statsVar l) + 1\<rparr>\<rparr>)"

text \<open>Last loop: the opened msk is applied to the result and coloured green.\<close>

definition applyStep :: "nat \<Rightarrow> Locals \<Rightarrow> Locals" where
  "applyStep pixelIndex l =
     (if mask_at (openedMask l) pixelIndex
      then
        let idx = pixelIndex * 4
        in l\<lparr>result := (result l)[idx := 0, idx + 1 := 0, idx + 2 := 0, idx + 3 := 0],
             visualization := (visualization l)[idx := 0, idx + 1 := 255, idx + 2 := 0]\<rparr>
      else l)"

definition processImageLocals :: "ImageData \<Rightarrow> 'a ProcessingParams_scheme \<Rightarrow> Locals" where
  "processImageLocals imageData params =
     (let w = width imageData;
          h = height imageData;
          dat = data imageData;
          l0 = \<lparr>result = copyLoop dat, visualization = copyLoop dat,
                statsVar = initStats params, hsvValues = hsvLoop dat,
                blackPixelsMask = replicate (w * h) False,
                initialMask = replicate (w * h) False,
                finalMask = replicate (w * h) False,
                openedMask = []\<rparr>;
          l1 = fold (blackStep dat params) [0..<length (hsvValues l0)] l0;
          l2 = fold (\<lambda>y. fold (initialStep dat w h params y) [0..<w]) [0..<h] l1;
          l3 = fold (\<lambda>y. fold (finalStep w h params y) [0..<w]) [0..<h] l2;
          l4 = l3\<lparr>openedMask :=
                    morphologicalOpenMask (finalMask l3) w h (morphOpeningKernelSize params)\<rparr>
      in fold applyStep [0..<length (openedMask l4)] l4)"

text \<open>
  \<open>processImage\<close> wraps the two buffers as \<open>ImageData\<close> objects and resolves its promise
  with them and the statistics. The promise and the timer that defers the work do not
  change the value, so the model is the function from the arguments to the resolved
  value; an exception of the constructor, after which nothing is resolved, is the error
  value.
\<close>

definition processImage ::
  "ImageData \<Rightarrow> 'a ProcessingParams_scheme \<Rightarrow> DOMException + ProcessingResult" where
  "processImage imageData params =
     (let l = processImageLocals imageData params
      in case newImageData (result l) (width imageData) (height imageData) of
           Inl e \<Rightarrow> Inl e
         | Inr p \<Rightarrow>
             (case newImageData (visualization l) (width imageData) (height imageData) of
                Inl e \<Rightarrow> Inl e
              | Inr v \<Rightarrow> Inr \<lparr>processedImage = p, visualizationImage = v, stats = statsVar l\<rparr>))"

text \<open>The call made by the application: the parameters extended with the painted mask.\<close>

definition processImageWithParams ::
  "ImageData \<Rightarrow> ProcessingParams \<Rightarrow> bool list option \<Rightarrow> DOMException + ProcessingResult" where
  "processImageWithParams originalImageData parameters wl =
     (let paramsWithWhitelist = ProcessingParams.extend parameters
            (ParamsWithWhitelist.fields wl)
      in processImage originalImageData paramsWithWhitelist)"

section \<open>Auxiliary notions for the statements\<close>

text \<open>
  Pixel \<open>q\<close> lies in the clipped square window of half-width \<open>half\<close> around pixel \<open>p\<close>
  (both given by their index \<open>y * w + x\<close>).
\<close>

definition inWindow :: "nat \<Rightarrow> nat \<Rightarrow> int \<Rightarrow> nat \<Rightarrow> nat \<Rightarrow> bool" where
  "inWindow w h half p q =
     (q div w \<in> set (kernelRange (p div w) h half) \<and>
      q mod w \<in> set (kernelRange (p mod w) w half))"

text \<open>
  The contribution of the cell \<open>(kx, ky)\<close> to the saturation total: its saturation if the
  pixel is not transparent, and nothing otherwise.
\<close>

definition satTerm :: "byte list \<Rightarrow> (real \<times> real \<times> real) list \<Rightarrow> nat \<Rightarrow> nat \<Rightarrow> nat \<Rightarrow> real" where
  "satTerm dat hsvs w ky kx =
     (if dat ! ((ky * w + kx) * 4 + 3) \<noteq> 0 then hsvS (hsvs ! (ky * w + kx)) else 0)"

text \<open>
  A raster as the platform hands it over: positive dimensions and four bytes per pixel.
\<close>

definition validImageData :: "ImageData \<Rightarrow> bool" where
  "validImageData img =
     (0 < width img \<and> 0 < height img \<and> length (data img) = 4 * width img * height img)"

definition alphaAt :: "byte list \<Rightarrow> nat \<Rightarrow> byte" where
  "alphaAt dat p = dat ! (p * 4 + 3)"

text \<open>The black-pixel test and the three tests of the candidate pass, for pixel \<open>p\<close>.\<close>

definition isBlackPixel ::
  "(real \<times> real \<times> real) list \<Rightarrow> 'a ProcessingParams_scheme \<Rightarrow> nat \<Rightarrow> bool" where
  "isBlackPixel hsvs params p =
     (hsvV (hsvs ! p) < blackPixelBrightnessThreshold params \<and>
      hsvS (hsvs ! p) < blackPixelSaturationThreshold params)"

definition passesTests ::
  "byte list \<Rightarrow> (real \<times> real \<times> real) list \<Rightarrow> nat \<Rightarrow> nat \<Rightarrow> 'a ProcessingParams_scheme \<Rightarrow>
     nat \<Rightarrow> nat \<Rightarrow> bool" where
  "passesTests dat hsvs w h params y x =
     (brightnessThreshold params < hsvV (hsvs ! (y * w + x)) \<and>
      hsvS (hsvs ! (y * w + x)) < saturationThreshold params \<and>
      calculateLocalMeanSaturation dat hsvs w h x y (blurKernelSize params)
         < meanSaturationThreshold params)"

definition countTrue :: "bool list \<Rightarrow> nat" where
  "countTrue m = length (filter (\<lambda>b. b) m)"

definition countTransparent :: "byte list \<Rightarrow> nat" where
  "countTransparent dat = length (filter (\<lambda>p. alphaAt dat p = 0) [0..<length dat div 4])"

text \<open>
  The two outcomes of the third loop for pixel \<open>p\<close>, given the pair of the initial mask
  and the black-pixel mask: the candidate stays marked for removal, or it is whitelisted
  because a black pixel is near.
\<close>

definition keptCandidate :: "bool list \<times> bool list \<Rightarrow> nat \<Rightarrow> nat \<Rightarrow> real \<Rightarrow> nat \<Rightarrow> bool" where
  "keptCandidate ms w h S p =
     (mask_at (fst ms) p \<and> \<not> isNearBlackPixelOptimized (snd ms) w h (p mod w) (p div w) S)"

definition savedCandidate :: "bool list \<times> bool list \<Rightarrow> nat \<Rightarrow> nat \<Rightarrow> real \<Rightarrow> nat \<Rightarrow> bool" where
  "savedCandidate ms w h S p =
     (mask_at (fst ms) p \<and> isNearBlackPixelOptimized (snd ms) w h (p mod w) (p div w) S)"

text \<open>
  The effect of one colouring rule on channel \<open>k\<close> of a pixel: where the rule applies,
  the three colour channels are overwritten and alpha is kept.
\<close>

definition paint :: "bool \<Rightarrow> byte \<Rightarrow> byte \<Rightarrow> byte \<Rightarrow> nat \<Rightarrow> byte \<Rightarrow> byte" where
  "paint c r g b k old =
     (if c \<and> k = 0 then r else if c \<and> k = 1 then g else if c \<and> k = 2 then b else old)"

text \<open>The four channels of pixel \<open>p\<close> of a buffer, and its three colour channels.\<close>

definition pixelAt :: "byte list \<Rightarrow> nat \<Rightarrow> byte \<times> byte \<times> byte \<times> byte" where
  "pixelAt dat p = (dat ! (p * 4), dat ! (p * 4 + 1), dat ! (p * 4 + 2), dat ! (p * 4 + 3))"

definition rgbAt :: "byte list \<Rightarrow> nat \<Rightarrow> byte \<times> byte \<times> byte" where
  "rgbAt dat p = (dat ! (p * 4), dat ! (p * 4 + 1), dat ! (p * 4 + 2))"

section \<open>Example rasters\<close>

text \<open>One opaque white pixel; one fully transparent pixel; one opaque light-gray pixel.\<close>

definition whitePixel :: ImageData where
  "whitePixel = \<lparr>width = 1, height = 1, data = [255, 255, 255, 255]\<rparr>"

definition clearPixel :: ImageData where
  "clearPixel = \<lparr>width = 1, height = 1, data = [0, 0, 0, 0]\<rparr>"

definition grayPixel :: ImageData where
  "grayPixel = \<lparr>width = 1, height = 1, data = [204, 204, 204, 255]\<rparr>"

text \<open>A row of two pixels: a transparent one (with white colour channels) and an opaque white one.\<close>

definition clearWhiteRow :: ImageData where
  "clearWhiteRow = \<lparr>width = 2, height = 1, data = [255, 255, 255, 0, 255, 255, 255, 255]\<rparr>"

text \<open>A row of two pixels: an opaque black one and an opaque white one.\<close>

definition blackWhiteRow :: ImageData where
  "blackWhiteRow = \<lparr>width = 2, height = 1, data = [0, 0, 0, 255, 255, 255, 255, 255]\<rparr>"

text \<open>
  Parameters within the ranges of the sliders, whose black-pixel brightness threshold lies
  above the brightness threshold.
\<close>

definition overlappingParams :: ProcessingParams where
  "overlappingParams = defaultParams\<lparr>blackPixelBrightnessThreshold := 90\<rparr>"

text \<open>One opaque pure-red pixel.\<close>

definition redPixel :: ImageData where
  "redPixel = \<lparr>width = 1, height = 1, data = [255, 0, 0, 255]\<rparr>"

section \<open>The local mean as the specification words it\<close>

text \<open>
  The window of half-width \<open>half\<close> around coordinate \<open>c\<close>, clipped to \<open>0 \<le> k < bound\<close>.
\<close>

definition clippedWindow :: "nat \<Rightarrow> nat \<Rightarrow> int \<Rightarrow> nat set" where
  "clippedWindow c bound half =
     {k \<in> {0..<bound}. int c - half \<le> int k \<and> int k \<le> int c + half}"

text \<open>
  Zero-padded averaging: the saturation of the non-transparent in-bounds pixels of the
  window, divided by the pixel count of the full, unclipped window
  \<open>(2 \<lfloor>K / 2\<rfloor> + 1)\<^sup>2\<close>; 0 when the clipped window is empty.
\<close>

definition zeroPaddedMeanSaturation ::
  "byte list \<Rightarrow> (real \<times> real \<times> real) list \<Rightarrow> nat \<Rightarrow> nat \<Rightarrow> nat \<Rightarrow> nat \<Rightarrow> real \<Rightarrow> real" where
  "zeroPaddedMeanSaturation dat hsvs w h x y kernelSize =
     (let half = \<lfloor>kernelSize / 2\<rfloor>;
          ys = clippedWindow y h half;
          xs = clippedWindow x w half;
          fullCount = (2 * half + 1) * (2 * half + 1)
      in if ys = {} \<or> xs = {} then 0
         else (\<Sum>ky\<in>ys. \<Sum>kx\<in>xs. satTerm dat hsvs w ky kx) / real_of_int fullCount)"

section \<open>Auxiliary lemmas\<close>


lemma copyLoop_id: "copyLoop dat = dat"
  by (simp add: copyLoop_def map_nth)

lemma js_set_in: "i < length m \<Longrightarrow> js_set m i v = m[i := v]"
  by (simp add: js_set_def)

lemma kernelRange_iff:
  "k \<in> set (kernelRange c bound half) \<longleftrightarrow>
     k < bound \<and> int c - half \<le> int k \<and> int k \<le> int c + half"
  unfolding kernelRange_def set_upt atLeastLessThan_iff by linarith

lemma kernelRange_centre: "0 \<le> half \<Longrightarrow> c < bound \<Longrightarrow> c \<in> set (kernelRange c bound half)"
  by (simp add: kernelRange_iff)

lemma kernelRange_sym:
  "j < bound \<Longrightarrow> k \<in> set (kernelRange j bound half) \<Longrightarrow> j \<in> set (kernelRange k bound half)"
  unfolding kernelRange_iff by linarith

lemma upt_shift: "[h * w..<h * w + w] = map (\<lambda>x. x + h * w) [0..<w]"
  using map_add_upt[of "h * w" w] by (simp add: add.commute)

lemma fold_row_shift:
  "fold (\<lambda>p. g (p div w) (p mod w)) [h * w..<h * w + w] s = fold (g h) [0..<w] s"
proof -
  have "fold (\<lambda>p. g (p div w) (p mod w)) [h * w..<h * w + w] s
           = fold ((\<lambda>p. g (p div w) (p mod w)) \<circ> (\<lambda>x. x + h * w)) [0..<w] s"
    unfolding upt_shift by (simp only: fold_map)
  also have "\<dots> = fold (g h) [0..<w] s"
  proof (rule fold_cong)
    fix x assume "x \<in> set [0..<w]"
    then have "x < w" by simp
    then show "((\<lambda>p. g (p div w) (p mod w)) \<circ> (\<lambda>x. x + h * w)) x = g h x"
      by simp
  qed simp_all
  finally show ?thesis .
qed

lemma fold2_flat:
  "fold (\<lambda>y. fold (g y) [0..<w]) [0..<h] s = fold (\<lambda>p. g (p div w) (p mod w)) [0..<h * w] s"
proof (induction h)
  case 0
  then show ?case by simp
next
  case (Suc h)
  have "[0..<Suc h * w] = [0..<h * w] @ [h * w..<h * w + w]"
    using upt_add_eq_append[of 0 "h * w" w] by (simp add: add.commute)
  then have "fold (\<lambda>p. g (p div w) (p mod w)) [0..<Suc h * w] s
      = fold (\<lambda>p. g (p div w) (p mod w)) [h * w..<h * w + w]
          (fold (\<lambda>p. g (p div w) (p mod w)) [0..<h * w] s)"
    by (simp only: fold_append o_apply)
  also have "\<dots> = fold (g h) [0..<w] (fold (\<lambda>y. fold (g y) [0..<w]) [0..<h] s)"
    by (simp only: fold_row_shift Suc)
  also have "\<dots> = fold (\<lambda>y. fold (g y) [0..<w]) [0..<Suc h] s"
    by simp
  finally show ?case by simp
qed


lemma fold_mark:
  assumes "n \<le> length m0"
  shows "length (fold (\<lambda>p m. if c p then js_set m p (v p) else m) [0..<n] m0) = length m0 \<and>
         (\<forall>i<length m0. fold (\<lambda>p m. if c p then js_set m p (v p) else m) [0..<n] m0 ! i
              = (if i < n \<and> c i then v i else m0 ! i))"
  using assms
proof (induction n)
  case 0
  then show ?case by simp
next
  case (Suc n)
  let ?F = "\<lambda>k. fold (\<lambda>p m. if c p then js_set m p (v p) else m) [0..<k] m0"
  from Suc have len: "length (?F n) = length m0"
    and nth: "\<And>i. i < length m0 \<Longrightarrow> ?F n ! i = (if i < n \<and> c i then v i else m0 ! i)"
    and n: "n < length m0"
    by simp_all
  have step: "?F (Suc n) = (if c n then (?F n)[n := v n] else ?F n)"
    using n len by (simp add: js_set_in)
  have "?F (Suc n) ! i = (if i < Suc n \<and> c i then v i else m0 ! i)" if "i < length m0" for i
  proof (cases "i = n")
    case True
    then show ?thesis using that n len nth[OF that] by (simp add: js_set_in)
  next
    case False
    then have "i < Suc n \<longleftrightarrow> i < n" by arith
    then show ?thesis using that n False len nth[OF that] by (simp add: js_set_in)
  qed
  moreover have "length (?F (Suc n)) = length m0"
    using n len by (simp add: js_set_in)
  ultimately show ?case by blast
qed


subsection \<open>Erosion and dilation, pointwise\<close>

lemma cell_index:
  fixes ky kx w h :: nat
  assumes "ky < h" "kx < w"
  shows "ky * w + kx < h * w" "(ky * w + kx) div w = ky" "(ky * w + kx) mod w = kx"
proof -
  have "ky * w + kx < ky * w + w" using assms by simp
  also have "\<dots> = Suc ky * w" by simp
  also have "\<dots> \<le> h * w" using assms by (intro mult_le_mono1) simp
  finally show "ky * w + kx < h * w" .
  show "(ky * w + kx) div w = ky" using assms by simp
  show "(ky * w + kx) mod w = kx" using assms by simp
qed

lemma index_cell:
  fixes p w h :: nat
  assumes "p < h * w"
  shows "p div w < h" "p mod w < w" "p div w * w + p mod w = p"
proof -
  have w: "0 < w" using assms by (cases w) simp_all
  show "p div w < h" using assms w by (simp add: less_mult_imp_div_less)
  show "p mod w < w" using w by simp
  show "p div w * w + p mod w = p" by simp
qed


lemma inWindow_sym:
  assumes "p < h * w" "inWindow w h half p q"
  shows "inWindow w h half q p"
  using assms index_cell[OF assms(1)]
  unfolding inWindow_def by (blast intro: kernelRange_sym)

lemma window_all_iff:
  assumes "length m = h * w"
  shows "list_all (\<lambda>ky. list_all (\<lambda>kx. mask_at m (ky * w + kx))
            (kernelRange (p mod w) w half)) (kernelRange (p div w) h half)
         \<longleftrightarrow> (\<forall>q<h * w. inWindow w h half p q \<longrightarrow> m ! q)"
    (is "?L \<longleftrightarrow> ?R")
proof
  assume L: ?L
  show ?R
  proof (intro allI impI)
    fix q assume q: "q < h * w" and win: "inWindow w h half p q"
    from L win have "mask_at m (q div w * w + q mod w)"
      unfolding inWindow_def list_all_iff by blast
    then show "m ! q" by (simp add: mask_at_def)
  qed
next
  assume R: ?R
  show ?L
    unfolding list_all_iff
  proof (intro ballI)
    fix ky kx
    assume ky: "ky \<in> set (kernelRange (p div w) h half)"
      and kx: "kx \<in> set (kernelRange (p mod w) w half)"
    then have b: "ky < h" "kx < w" by (simp_all add: kernelRange_iff)
    have "inWindow w h half p (ky * w + kx)"
      unfolding inWindow_def using ky kx cell_index[OF b] by simp
    with R cell_index(1)[OF b] have "m ! (ky * w + kx)" by blast
    then show "mask_at m (ky * w + kx)"
      using cell_index(1)[OF b] assms by (simp add: mask_at_def)
  qed
qed

lemma window_ex_iff:
  assumes "length m = h * w"
  shows "list_ex (\<lambda>ky. list_ex (\<lambda>kx. mask_at m (ky * w + kx))
            (kernelRange (p mod w) w half)) (kernelRange (p div w) h half)
         \<longleftrightarrow> (\<exists>q<h * w. inWindow w h half p q \<and> m ! q)"
    (is "?L \<longleftrightarrow> ?R")
proof
  assume ?L
  then obtain ky kx where ky: "ky \<in> set (kernelRange (p div w) h half)"
      and kx: "kx \<in> set (kernelRange (p mod w) w half)"
      and hit: "mask_at m (ky * w + kx)"
    unfolding list_ex_iff by blast
  from ky kx have b: "ky < h" "kx < w" by (simp_all add: kernelRange_iff)
  have "inWindow w h half p (ky * w + kx)"
    unfolding inWindow_def using ky kx cell_index[OF b] by simp
  moreover have "m ! (ky * w + kx)" using hit by (simp add: mask_at_def)
  ultimately show ?R using cell_index(1)[OF b] by blast
next
  assume ?R
  then obtain q where q: "q < h * w" and win: "inWindow w h half p q" and hit: "m ! q"
    by blast
  have "mask_at m (q div w * w + q mod w)"
    using q hit assms by (simp add: mask_at_def)
  with win show ?L
    unfolding inWindow_def list_ex_iff by blast
qed

lemma erodeMask_flat:
  "erodeMask m w h kernelSize =
     fold (\<lambda>p e. if list_all (\<lambda>ky. list_all (\<lambda>kx. mask_at m (ky * w + kx))
                        (kernelRange (p mod w) w \<lfloor>kernelSize / 2\<rfloor>))
                      (kernelRange (p div w) h \<lfloor>kernelSize / 2\<rfloor>)
                 then js_set e (p div w * w + p mod w) True else e)
       [0..<h * w] (replicate (length m) False)"
  unfolding erodeMask_def Let_def fold2_flat erodeStep_def ..

lemma dilateMask_flat:
  "dilateMask m w h kernelSize =
     fold (\<lambda>p e. if list_ex (\<lambda>ky. list_ex (\<lambda>kx. mask_at m (ky * w + kx))
                        (kernelRange (p mod w) w \<lfloor>kernelSize / 2\<rfloor>))
                      (kernelRange (p div w) h \<lfloor>kernelSize / 2\<rfloor>)
                 then js_set e (p div w * w + p mod w) True else e)
       [0..<h * w] (replicate (length m) False)"
  unfolding dilateMask_def Let_def fold2_flat dilateStep_def ..

lemma erodeMask_char:
  assumes "length m = h * w"
  shows "length (erodeMask m w h kernelSize) = h * w"
    and "p < h * w \<Longrightarrow> erodeMask m w h kernelSize ! p
           = (\<forall>q<h * w. inWindow w h \<lfloor>kernelSize / 2\<rfloor> p q \<longrightarrow> m ! q)"
proof -
  let ?c = "\<lambda>p. \<forall>q<h * w. inWindow w h \<lfloor>kernelSize / 2\<rfloor> p q \<longrightarrow> m ! q"
  have flat: "erodeMask m w h kernelSize =
      fold (\<lambda>p e. if ?c p then js_set e p True else e) [0..<h * w] (replicate (h * w) False)"
    unfolding erodeMask_flat window_all_iff[OF assms] div_mult_mod_eq using assms by simp
  have n: "h * w \<le> length (replicate (h * w) False)" by simp
  from fold_mark[OF n, of ?c "\<lambda>_. True"]
  show "length (erodeMask m w h kernelSize) = h * w"
    and "p < h * w \<Longrightarrow> erodeMask m w h kernelSize ! p = ?c p"
    unfolding flat by simp_all
qed

lemma dilateMask_char:
  assumes "length m = h * w"
  shows "length (dilateMask m w h kernelSize) = h * w"
    and "p < h * w \<Longrightarrow> dilateMask m w h kernelSize ! p
           = (\<exists>q<h * w. inWindow w h \<lfloor>kernelSize / 2\<rfloor> p q \<and> m ! q)"
proof -
  let ?c = "\<lambda>p. \<exists>q<h * w. inWindow w h \<lfloor>kernelSize / 2\<rfloor> p q \<and> m ! q"
  have flat: "dilateMask m w h kernelSize =
      fold (\<lambda>p e. if ?c p then js_set e p True else e) [0..<h * w] (replicate (h * w) False)"
    unfolding dilateMask_flat window_ex_iff[OF assms] div_mult_mod_eq using assms by simp
  have n: "h * w \<le> length (replicate (h * w) False)" by simp
  from fold_mark[OF n, of ?c "\<lambda>_. True"]
  show "length (dilateMask m w h kernelSize) = h * w"
    and "p < h * w \<Longrightarrow> dilateMask m w h kernelSize ! p = ?c p"
    unfolding flat by simp_all
qed



subsection \<open>Opening\<close>

lemma open_char:
  assumes "length m = h * w"
  shows "length (morphologicalOpenMask m w h kernelSize) = h * w"
    and "p < h * w \<Longrightarrow> morphologicalOpenMask m w h kernelSize ! p
           = (\<exists>q<h * w. inWindow w h \<lfloor>kernelSize / 2\<rfloor> p q \<and>
                (\<forall>r<h * w. inWindow w h \<lfloor>kernelSize / 2\<rfloor> q r \<longrightarrow> m ! r))"
proof -
  note e = erodeMask_char[OF assms, where kernelSize = kernelSize]
  note d = dilateMask_char[OF e(1), where kernelSize = kernelSize]
  show "length (morphologicalOpenMask m w h kernelSize) = h * w"
    unfolding morphologicalOpenMask_def Let_def by (rule d(1))
  assume p: "p < h * w"
  show "morphologicalOpenMask m w h kernelSize ! p
           = (\<exists>q<h * w. inWindow w h \<lfloor>kernelSize / 2\<rfloor> p q \<and>
                (\<forall>r<h * w. inWindow w h \<lfloor>kernelSize / 2\<rfloor> q r \<longrightarrow> m ! r))"
    unfolding morphologicalOpenMask_def Let_def d(2)[OF p]
    using e(2) by auto
qed

lemma open_subset:
  assumes "length m = h * w" "p < h * w" "morphologicalOpenMask m w h kernelSize ! p"
  shows "m ! p"
proof -
  from assms open_char(2)[OF assms(1,2), where kernelSize = kernelSize]
  obtain q where q: "q < h * w" "inWindow w h \<lfloor>kernelSize / 2\<rfloor> p q"
    and all: "\<forall>r<h * w. inWindow w h \<lfloor>kernelSize / 2\<rfloor> q r \<longrightarrow> m ! r"
    by blast
  from inWindow_sym[OF assms(2) q(2)] all assms(2) show ?thesis by blast
qed

lemma erode_open:
  assumes "length m = h * w"
  shows "erodeMask (morphologicalOpenMask m w h kernelSize) w h kernelSize
           = erodeMask m w h kernelSize"
proof (rule nth_equalityI)
  note o = open_char[OF assms, where kernelSize = kernelSize]
  note e = erodeMask_char[OF assms, where kernelSize = kernelSize]
  note eo = erodeMask_char[OF o(1), where kernelSize = kernelSize]
  show "length (erodeMask (morphologicalOpenMask m w h kernelSize) w h kernelSize)
          = length (erodeMask m w h kernelSize)"
    by (simp add: e(1) eo(1))
  fix p
  assume "p < length (erodeMask (morphologicalOpenMask m w h kernelSize) w h kernelSize)"
  then have p: "p < h * w" by (simp add: eo(1))
  let ?W = "inWindow w h \<lfloor>kernelSize / 2\<rfloor>"
  have "(\<forall>q<h * w. ?W p q \<longrightarrow> morphologicalOpenMask m w h kernelSize ! q)
          \<longleftrightarrow> (\<forall>q<h * w. ?W p q \<longrightarrow> m ! q)" (is "?L \<longleftrightarrow> ?R")
  proof
    assume L: ?L
    show ?R
    proof (intro allI impI)
      fix q assume q: "q < h * w" "?W p q"
      with L have "morphologicalOpenMask m w h kernelSize ! q" by blast
      then show "m ! q" by (rule open_subset[OF assms q(1)])
    qed
  next
    assume R: ?R
    show ?L
    proof (intro allI impI)
      fix q assume q: "q < h * w" "?W p q"
      have "?W q p" by (rule inWindow_sym[OF p q(2)])
      with R p show "morphologicalOpenMask m w h kernelSize ! q"
        unfolding o(2)[OF q(1)] by blast
    qed
  qed
  then show "erodeMask (morphologicalOpenMask m w h kernelSize) w h kernelSize ! p
          = erodeMask m w h kernelSize ! p"
    by (simp only: e(2)[OF p] eo(2)[OF p])
qed

subsection \<open>The proximity scan\<close>

lemma nearBlackRow_iff:
  "nearBlackRow m w x y r2 ky kxs \<longleftrightarrow>
     (\<exists>kx\<in>set kxs. (int kx - int x) * (int kx - int x) + (int ky - int y) * (int ky - int y) \<le> r2
        \<and> mask_at m (ky * w + kx))"
  by (induction kxs) (auto simp: Let_def)

lemma nearBlackRows_iff:
  "nearBlackRows m w x y r2 kxs kys \<longleftrightarrow>
     (\<exists>ky\<in>set kys. \<exists>kx\<in>set kxs.
        (int kx - int x) * (int kx - int x) + (int ky - int y) * (int ky - int y) \<le> r2
        \<and> mask_at m (ky * w + kx))"
  by (induction kys) (auto simp: nearBlackRow_iff)

lemma isNear_iff:
  "isNearBlackPixelOptimized m w h x y structureSize \<longleftrightarrow>
     (\<exists>ky\<in>set (kernelRange y h \<lfloor>structureSize / 2\<rfloor>).
      \<exists>kx\<in>set (kernelRange x w \<lfloor>structureSize / 2\<rfloor>).
        (int kx - int x) * (int kx - int x) + (int ky - int y) * (int ky - int y)
           \<le> \<lfloor>structureSize / 2\<rfloor> * \<lfloor>structureSize / 2\<rfloor>
        \<and> mask_at m (ky * w + kx))"
  unfolding isNearBlackPixelOptimized_def Let_def nearBlackRows_iff ..

lemma isNear_self:
  assumes "0 \<le> structureSize" "x < w" "y < h" "mask_at m (y * w + x)"
  shows "isNearBlackPixelOptimized m w h x y structureSize"
proof -
  have r: "0 \<le> \<lfloor>structureSize / 2\<rfloor>" using assms(1) by simp
  have "y \<in> set (kernelRange y h \<lfloor>structureSize / 2\<rfloor>)"
       "x \<in> set (kernelRange x w \<lfloor>structureSize / 2\<rfloor>)"
    using r assms by (simp_all add: kernelRange_centre)
  moreover have "(int x - int x) * (int x - int x) + (int y - int y) * (int y - int y)
           \<le> \<lfloor>structureSize / 2\<rfloor> * \<lfloor>structureSize / 2\<rfloor>"
    using r by simp
  ultimately show ?thesis
    unfolding isNear_iff using assms(4) by blast
qed


subsection \<open>The local mean\<close>


lemma meanSatStep_eq:
  "meanSatStep dat hsvs w ky kx acc = (fst acc + satTerm dat hsvs w ky kx, snd acc + 1)"
  by (simp add: meanSatStep_def satTerm_def Let_def word_gt_0)

lemma fold_meanSatStep:
  "fold (meanSatStep dat hsvs w ky) kxs acc
     = (fst acc + (\<Sum>kx\<leftarrow>kxs. satTerm dat hsvs w ky kx), snd acc + length kxs)"
proof (induction kxs arbitrary: acc)
  case Nil
  then show ?case by simp
next
  case (Cons kx kxs)
  have "fold (meanSatStep dat hsvs w ky) (kx # kxs) acc
          = fold (meanSatStep dat hsvs w ky) kxs (meanSatStep dat hsvs w ky kx acc)"
    by simp
  also have "\<dots> = (fst (meanSatStep dat hsvs w ky kx acc) + (\<Sum>kx\<leftarrow>kxs. satTerm dat hsvs w ky kx),
                      snd (meanSatStep dat hsvs w ky kx acc) + length kxs)"
    by (rule Cons.IH)
  also have "\<dots> = (fst acc + (\<Sum>kx\<leftarrow>kx # kxs. satTerm dat hsvs w ky kx),
                      snd acc + length (kx # kxs))"
    by (simp add: meanSatStep_eq)
  finally show ?case .
qed

lemma fold_meanSatRows:
  "fold (\<lambda>ky. fold (meanSatStep dat hsvs w ky) kxs) kys acc
     = (fst acc + (\<Sum>ky\<leftarrow>kys. \<Sum>kx\<leftarrow>kxs. satTerm dat hsvs w ky kx),
        snd acc + length kys * length kxs)"
proof (induction kys arbitrary: acc)
  case Nil
  then show ?case by simp
next
  case (Cons ky kys)
  let ?row = "\<lambda>ky. fold (meanSatStep dat hsvs w ky) kxs"
  have "fold ?row (ky # kys) acc = fold ?row kys (?row ky acc)"
    by simp
  also have "\<dots> = (fst (?row ky acc) + (\<Sum>ky\<leftarrow>kys. \<Sum>kx\<leftarrow>kxs. satTerm dat hsvs w ky kx),
                      snd (?row ky acc) + length kys * length kxs)"
    by (rule Cons.IH)
  also have "\<dots> = (fst acc + (\<Sum>ky\<leftarrow>ky # kys. \<Sum>kx\<leftarrow>kxs. satTerm dat hsvs w ky kx),
                      snd acc + length (ky # kys) * length kxs)"
    by (simp add: fold_meanSatStep)
  finally show ?case .
qed

lemma kernelRange_distinct: "distinct (kernelRange c bound half)"
  by (simp add: kernelRange_def)

lemma calculateLocalMeanSaturation_eq:
  "calculateLocalMeanSaturation dat hsvs w h x y kernelSize =
     (let kys = kernelRange y h \<lfloor>kernelSize / 2\<rfloor>;
          kxs = kernelRange x w \<lfloor>kernelSize / 2\<rfloor>;
          n = length kys * length kxs
      in if n > 0 then (\<Sum>ky\<leftarrow>kys. \<Sum>kx\<leftarrow>kxs. satTerm dat hsvs w ky kx) / real n else 0)"
  by (simp add: calculateLocalMeanSaturation_def Let_def fold_meanSatRows)


subsection \<open>Loops that count and loops that paint\<close>

lemma fold_count:
  "fold (\<lambda>p (k::nat). if c p then k + 1 else k) ps k0 = k0 + length (filter c ps)"
  by (induction ps arbitrary: k0) simp_all

lemma count_true_upt: "length (filter (\<lambda>b. b) m) = length (filter (\<lambda>p. m ! p) [0..<length m])"
proof -
  have "filter (\<lambda>b. b) (map (\<lambda>p. m ! p) [0..<length m])
          = map (\<lambda>p. m ! p) (filter (\<lambda>p. m ! p) [0..<length m])"
    by (simp add: filter_map o_def)
  then have "filter (\<lambda>b. b) m = map (\<lambda>p. m ! p) (filter (\<lambda>p. m ! p) [0..<length m])"
    by (simp add: map_nth)
  then show ?thesis by (metis length_map)
qed

lemma idx0: "(q * 4 = i) = (i div 4 = q \<and> i mod 4 = (0::nat))"
  by presburger

lemma idx1: "(q * 4 + 1 = i) = (i div 4 = q \<and> i mod 4 = (1::nat))"
  by presburger

lemma idx2: "(q * 4 + 2 = i) = (i div 4 = q \<and> i mod 4 = (2::nat))"
  by presburger

lemma idx3: "(q * 4 + 3 = i) = (i div 4 = q \<and> i mod 4 = (3::nat))"
  by presburger

lemma paint3_nth:
  assumes "i < length ys"
  shows "ys[q * 4 := r, q * 4 + 1 := g, q * 4 + 2 := b] ! i
           = (if i div 4 = q \<and> i mod 4 = 0 then r
              else if i div 4 = q \<and> i mod 4 = 1 then g
              else if i div 4 = q \<and> i mod 4 = 2 then b
              else ys ! i)"
proof -
  have "ys[q * 4 := r, q * 4 + 1 := g, q * 4 + 2 := b] ! i
      = (if q * 4 + 2 = i then b else if q * 4 + 1 = i then g else if q * 4 = i then r else ys ! i)"
    using assms by (simp add: nth_list_update)
  also have "\<dots> = (if i div 4 = q \<and> i mod 4 = 0 then r
              else if i div 4 = q \<and> i mod 4 = 1 then g
              else if i div 4 = q \<and> i mod 4 = 2 then b
              else ys ! i)"
    unfolding idx0 idx1 idx2 by auto
  finally show ?thesis .
qed

lemma paint4_nth:
  assumes "i < length ys"
  shows "ys[q * 4 := v, q * 4 + 1 := v, q * 4 + 2 := v, q * 4 + 3 := v] ! i
           = (if i div 4 = q then v else ys ! i)"
proof -
  have m: "i mod 4 = 0 \<or> i mod 4 = 1 \<or> i mod 4 = 2 \<or> i mod 4 = 3" by presburger
  have "ys[q * 4 := v, q * 4 + 1 := v, q * 4 + 2 := v, q * 4 + 3 := v] ! i
      = (if q * 4 + 3 = i then v else if q * 4 + 2 = i then v else if q * 4 + 1 = i then v
         else if q * 4 = i then v else ys ! i)"
    using assms by (simp add: nth_list_update)
  also have "\<dots> = (if i div 4 = q then v else ys ! i)"
    unfolding idx0 idx1 idx2 idx3 using m by auto
  finally show ?thesis .
qed

lemma fold_paint3:
  fixes xs0 :: "'a list"
  defines "F \<equiv> \<lambda>c r g b n xs0.
     fold (\<lambda>p xs. if c p then xs[p * 4 := r, p * 4 + 1 := g, p * 4 + 2 := b] else xs) [0..<n] xs0"
  shows "length (F c r g b n xs0) = length xs0"
    and "i < length xs0 \<Longrightarrow> F c r g b n xs0 ! i
           = (if i div 4 < n \<and> c (i div 4) \<and> i mod 4 = 0 then r
              else if i div 4 < n \<and> c (i div 4) \<and> i mod 4 = 1 then g
              else if i div 4 < n \<and> c (i div 4) \<and> i mod 4 = 2 then b
              else xs0 ! i)"
proof -
  show len: "length (F c r g b n xs0) = length xs0" for n
    unfolding F_def by (induction n) simp_all
  assume i: "i < length xs0"
  show "F c r g b n xs0 ! i
           = (if i div 4 < n \<and> c (i div 4) \<and> i mod 4 = 0 then r
              else if i div 4 < n \<and> c (i div 4) \<and> i mod 4 = 1 then g
              else if i div 4 < n \<and> c (i div 4) \<and> i mod 4 = 2 then b
              else xs0 ! i)"
  proof (induction n)
    case 0
    then show ?case by (simp add: F_def)
  next
    case (Suc n)
    have step: "F c r g b (Suc n) xs0
        = (if c n then (F c r g b n xs0)[n * 4 := r, n * 4 + 1 := g, n * 4 + 2 := b]
           else F c r g b n xs0)"
      by (simp add: F_def)
    have i': "i < length (F c r g b n xs0)" using i len by simp
    show ?case
    proof (cases "i div 4 = n")
      case True
      then have old: "F c r g b n xs0 ! i = xs0 ! i"
        using Suc.IH by simp
      show ?thesis
        unfolding step using True old
        by (cases "c n") (simp_all only: paint3_nth[OF i'] if_True if_False lessI simp_thms)
    next
      case False
      then have lt: "i div 4 < Suc n \<longleftrightarrow> i div 4 < n" by arith
      from False have ne: "(i div 4 = n) = False" by simp
      show ?thesis
        unfolding step lt using Suc.IH
        by (cases "c n") (simp_all only: paint3_nth[OF i'] ne if_True if_False simp_thms)
    qed
  qed
qed

lemma fold_paint4:
  fixes xs0 :: "'a list"
  defines "F \<equiv> \<lambda>c v n xs0.
     fold (\<lambda>p xs. if c p then xs[p * 4 := v, p * 4 + 1 := v, p * 4 + 2 := v, p * 4 + 3 := v]
                   else xs) [0..<n] xs0"
  shows "length (F c v n xs0) = length xs0"
    and "i < length xs0 \<Longrightarrow> F c v n xs0 ! i
           = (if i div 4 < n \<and> c (i div 4) then v else xs0 ! i)"
proof -
  show len: "length (F c v n xs0) = length xs0" for n
    unfolding F_def by (induction n) simp_all
  assume i: "i < length xs0"
  show "F c v n xs0 ! i = (if i div 4 < n \<and> c (i div 4) then v else xs0 ! i)"
  proof (induction n)
    case 0
    then show ?case by (simp add: F_def)
  next
    case (Suc n)
    have step: "F c v (Suc n) xs0
        = (if c n then (F c v n xs0)[n * 4 := v, n * 4 + 1 := v, n * 4 + 2 := v, n * 4 + 3 := v]
           else F c v n xs0)"
      by (simp add: F_def)
    have i': "i < length (F c v n xs0)" using i len by simp
    show ?case
    proof (cases "i div 4 = n")
      case True
      then have old: "F c v n xs0 ! i = xs0 ! i"
        using Suc.IH by simp
      show ?thesis
        unfolding step using True old
        by (cases "c n") (simp_all only: paint4_nth[OF i'] if_True if_False lessI simp_thms)
    next
      case False
      then have lt: "i div 4 < Suc n \<longleftrightarrow> i div 4 < n" by arith
      from False have ne: "(i div 4 = n) = False" by simp
      show ?thesis
        unfolding step lt using Suc.IH
        by (cases "c n") (simp_all only: paint4_nth[OF i'] ne if_True if_False simp_thms)
    qed
  qed
qed


subsection \<open>The loops of the pipeline, field by field\<close>

lemma fold_proj:
  assumes "\<And>p l. frame (step p l) = frame l"
    and "\<And>p l. proj (step p l) = stepP (frame l) p (proj l)"
  shows "proj (fold step ps l) = fold (stepP (frame l)) ps (proj l)"
  by (induction ps arbitrary: l) (simp_all add: assms)

lemma fold_idle:
  assumes "\<And>p. p \<in> set ps \<Longrightarrow> step p l = l"
  shows "fold step ps l = l"
  using assms by (induction ps) simp_all

lemma blackStep_same:
  "result (blackStep dat params p l) = result l"
  "hsvValues (blackStep dat params p l) = hsvValues l"
  "initialMask (blackStep dat params p l) = initialMask l"
  "finalMask (blackStep dat params p l) = finalMask l"
  "openedMask (blackStep dat params p l) = openedMask l"
  "replacedPixels (statsVar (blackStep dat params p l)) = replacedPixels (statsVar l)"
  by (simp_all add: blackStep_def Let_def)

lemma blackStep_mask:
  "blackPixelsMask (blackStep dat params p l)
     = (if alphaAt dat p \<noteq> 0 then js_set (blackPixelsMask l) p (isBlackPixel (hsvValues l) params p)
        else blackPixelsMask l)"
  by (simp add: blackStep_def Let_def alphaAt_def isBlackPixel_def)

lemma blackStep_count:
  "blackPixels (statsVar (blackStep dat params p l))
     = (if alphaAt dat p \<noteq> 0 \<and> isBlackPixel (hsvValues l) params p
        then blackPixels (statsVar l) + 1 else blackPixels (statsVar l))"
  by (simp add: blackStep_def Let_def alphaAt_def isBlackPixel_def)

lemma blackStep_vis:
  "visualization (blackStep dat params p l)
     = (if alphaAt dat p \<noteq> 0 \<and> isBlackPixel (hsvValues l) params p
        then (visualization l)[p * 4 := 255, p * 4 + 1 := 0, p * 4 + 2 := 0]
        else visualization l)"
  by (simp add: blackStep_def Let_def alphaAt_def isBlackPixel_def)

lemma blackStep_idle: "alphaAt dat p = 0 \<Longrightarrow> blackStep dat params p l = l"
  by (simp add: blackStep_def Let_def alphaAt_def)

lemma initialStep_same:
  "result (initialStep dat w h params y x l) = result l"
  "visualization (initialStep dat w h params y x l) = visualization l"
  "hsvValues (initialStep dat w h params y x l) = hsvValues l"
  "blackPixelsMask (initialStep dat w h params y x l) = blackPixelsMask l"
  "finalMask (initialStep dat w h params y x l) = finalMask l"
  "openedMask (initialStep dat w h params y x l) = openedMask l"
  "blackPixels (statsVar (initialStep dat w h params y x l)) = blackPixels (statsVar l)"
  "replacedPixels (statsVar (initialStep dat w h params y x l)) = replacedPixels (statsVar l)"
  by (simp_all add: initialStep_def Let_def)

lemma initialStep_mask:
  "initialMask (initialStep dat w h params y x l)
     = (if alphaAt dat (y * w + x) \<noteq> 0 \<and> passesTests dat (hsvValues l) w h params y x
        then js_set (initialMask l) (y * w + x) True else initialMask l)"
  by (simp add: initialStep_def Let_def alphaAt_def passesTests_def)

lemma initialStep_idle:
  "alphaAt dat (y * w + x) = 0 \<Longrightarrow> initialStep dat w h params y x l = l"
  by (simp add: initialStep_def Let_def alphaAt_def)

lemma finalStep_same:
  "result (finalStep w h params y x l) = result l"
  "hsvValues (finalStep w h params y x l) = hsvValues l"
  "blackPixelsMask (finalStep w h params y x l) = blackPixelsMask l"
  "initialMask (finalStep w h params y x l) = initialMask l"
  "openedMask (finalStep w h params y x l) = openedMask l"
  "blackPixels (statsVar (finalStep w h params y x l)) = blackPixels (statsVar l)"
  by (simp_all add: finalStep_def Let_def)

lemma finalStep_mask:
  "finalMask (finalStep w h params y x l)
     = (if mask_at (initialMask l) (y * w + x) \<and>
           \<not> isNearBlackPixelOptimized (blackPixelsMask l) w h x y (structuringElementSize params)
        then js_set (finalMask l) (y * w + x) True else finalMask l)"
  by (simp add: finalStep_def Let_def)

lemma finalStep_count:
  "replacedPixels (statsVar (finalStep w h params y x l))
     = (if mask_at (initialMask l) (y * w + x) \<and>
           \<not> isNearBlackPixelOptimized (blackPixelsMask l) w h x y (structuringElementSize params)
        then replacedPixels (statsVar l) + 1 else replacedPixels (statsVar l))"
  by (simp add: finalStep_def Let_def)

lemma finalStep_vis:
  "visualization (finalStep w h params y x l)
     = (if mask_at (initialMask l) (y * w + x) \<and>
           isNearBlackPixelOptimized (blackPixelsMask l) w h x y (structuringElementSize params)
        then (visualization l)[(y * w + x) * 4 := 0, (y * w + x) * 4 + 1 := 0,
                               (y * w + x) * 4 + 2 := 255]
        else visualization l)"
  by (simp add: finalStep_def Let_def)

lemma finalStep_idle:
  "\<not> mask_at (initialMask l) (y * w + x) \<Longrightarrow> finalStep w h params y x l = l"
  by (simp add: finalStep_def Let_def)

lemma applyStep_same:
  "statsVar (applyStep p l) = statsVar l"
  "hsvValues (applyStep p l) = hsvValues l"
  "blackPixelsMask (applyStep p l) = blackPixelsMask l"
  "initialMask (applyStep p l) = initialMask l"
  "finalMask (applyStep p l) = finalMask l"
  "openedMask (applyStep p l) = openedMask l"
  by (simp_all add: applyStep_def Let_def)

lemma applyStep_result:
  "result (applyStep p l)
     = (if mask_at (openedMask l) p
        then (result l)[p * 4 := 0, p * 4 + 1 := 0, p * 4 + 2 := 0, p * 4 + 3 := 0]
        else result l)"
  by (simp add: applyStep_def Let_def)

lemma applyStep_vis:
  "visualization (applyStep p l)
     = (if mask_at (openedMask l) p
        then (visualization l)[p * 4 := 0, p * 4 + 1 := 255, p * 4 + 2 := 0]
        else visualization l)"
  by (simp add: applyStep_def Let_def)

lemma applyStep_idle: "\<not> mask_at (openedMask l) p \<Longrightarrow> applyStep p l = l"
  by (simp add: applyStep_def)


lemma fold_same:
  assumes "\<And>p l. proj (step p l) = proj l"
  shows "proj (fold step ps l) = proj l"
  by (induction ps arbitrary: l) (simp_all add: assms)

lemma fold2_same:
  assumes "\<And>y x l. proj (step y x l) = proj l"
  shows "proj (fold (\<lambda>y. fold (step y) xs) ys l) = proj l"
proof (rule fold_same)
  fix y l
  show "proj (fold (step y) xs l) = proj l"
    by (rule fold_same) (rule assms)
qed

lemma fold2_proj:
  assumes "\<And>y x l. frame (step y x l) = frame l"
    and "\<And>y x l. proj (step y x l) = stepP (frame l) y x (proj l)"
  shows "proj (fold (\<lambda>y. fold (step y) [0..<w]) [0..<h] l)
           = fold (\<lambda>p. stepP (frame l) (p div w) (p mod w)) [0..<h * w] (proj l)"
proof -
  have "proj (fold (\<lambda>p. step (p div w) (p mod w)) [0..<h * w] l)
          = fold (\<lambda>p. stepP (frame l) (p div w) (p mod w)) [0..<h * w] (proj l)"
    by (rule fold_proj[where step = "\<lambda>p. step (p div w) (p mod w)" and frame = frame
          and stepP = "\<lambda>i p. stepP i (p div w) (p mod w)"]) (simp_all add: assms)
  then show ?thesis by (simp only: fold2_flat)
qed

lemma fold2_idle:
  assumes "\<And>y x. y < h \<Longrightarrow> x < w \<Longrightarrow> step y x l = l"
  shows "fold (\<lambda>y. fold (step y) [0..<w]) [0..<h] l = l"
proof (rule fold_idle)
  fix y assume "y \<in> set [0..<h]"
  then have y: "y < h" by simp
  show "fold (step y) [0..<w] l = l"
    by (rule fold_idle) (simp add: assms y)
qed

text \<open>The first loop.\<close>

lemma black_pass_same:
  "result (fold (blackStep dat params) ps l) = result l"
  "hsvValues (fold (blackStep dat params) ps l) = hsvValues l"
  "initialMask (fold (blackStep dat params) ps l) = initialMask l"
  "finalMask (fold (blackStep dat params) ps l) = finalMask l"
  "openedMask (fold (blackStep dat params) ps l) = openedMask l"
  "replacedPixels (statsVar (fold (blackStep dat params) ps l)) = replacedPixels (statsVar l)"
proof -
  show "result (fold (blackStep dat params) ps l) = result l"
    by (rule fold_same) (rule blackStep_same)
  show "hsvValues (fold (blackStep dat params) ps l) = hsvValues l"
    by (rule fold_same) (rule blackStep_same)
  show "initialMask (fold (blackStep dat params) ps l) = initialMask l"
    by (rule fold_same) (rule blackStep_same)
  show "finalMask (fold (blackStep dat params) ps l) = finalMask l"
    by (rule fold_same) (rule blackStep_same)
  show "openedMask (fold (blackStep dat params) ps l) = openedMask l"
    by (rule fold_same) (rule blackStep_same)
  show "replacedPixels (statsVar (fold (blackStep dat params) ps l)) = replacedPixels (statsVar l)"
    by (rule fold_same[where proj = "\<lambda>l. replacedPixels (statsVar l)"]) (rule blackStep_same)
qed

lemma black_pass_mask:
  "blackPixelsMask (fold (blackStep dat params) ps l)
     = fold (\<lambda>p m. if alphaAt dat p \<noteq> 0
                    then js_set m p (isBlackPixel (hsvValues l) params p) else m)
         ps (blackPixelsMask l)"
  by (rule fold_proj[where frame = hsvValues
        and stepP = "\<lambda>H p m. if alphaAt dat p \<noteq> 0 then js_set m p (isBlackPixel H params p) else m"])
     (simp_all add: blackStep_same blackStep_mask)

lemma black_pass_count:
  "blackPixels (statsVar (fold (blackStep dat params) ps l))
     = fold (\<lambda>p k. if alphaAt dat p \<noteq> 0 \<and> isBlackPixel (hsvValues l) params p
                    then k + 1 else k)
         ps (blackPixels (statsVar l))"
  by (rule fold_proj[where frame = hsvValues and proj = "\<lambda>l. blackPixels (statsVar l)"
        and stepP = "\<lambda>H p k. if alphaAt dat p \<noteq> 0 \<and> isBlackPixel H params p then k + 1 else k"])
     (simp_all add: blackStep_same blackStep_count)

lemma black_pass_vis:
  "visualization (fold (blackStep dat params) ps l)
     = fold (\<lambda>p xs. if alphaAt dat p \<noteq> 0 \<and> isBlackPixel (hsvValues l) params p
                     then xs[p * 4 := 255, p * 4 + 1 := 0, p * 4 + 2 := 0] else xs)
         ps (visualization l)"
  by (rule fold_proj[where frame = hsvValues
        and stepP = "\<lambda>H p xs. if alphaAt dat p \<noteq> 0 \<and> isBlackPixel H params p
                     then xs[p * 4 := 255, p * 4 + 1 := 0, p * 4 + 2 := 0] else xs"])
     (simp_all add: blackStep_same blackStep_vis)

text \<open>The second loop.\<close>

lemma initial_pass_same:
  "result (fold (\<lambda>y. fold (initialStep dat w h params y) xs) ys l) = result l"
  "visualization (fold (\<lambda>y. fold (initialStep dat w h params y) xs) ys l) = visualization l"
  "hsvValues (fold (\<lambda>y. fold (initialStep dat w h params y) xs) ys l) = hsvValues l"
  "blackPixelsMask (fold (\<lambda>y. fold (initialStep dat w h params y) xs) ys l) = blackPixelsMask l"
  "finalMask (fold (\<lambda>y. fold (initialStep dat w h params y) xs) ys l) = finalMask l"
  "openedMask (fold (\<lambda>y. fold (initialStep dat w h params y) xs) ys l) = openedMask l"
  "blackPixels (statsVar (fold (\<lambda>y. fold (initialStep dat w h params y) xs) ys l))
     = blackPixels (statsVar l)"
  "replacedPixels (statsVar (fold (\<lambda>y. fold (initialStep dat w h params y) xs) ys l))
     = replacedPixels (statsVar l)"
proof -
  let ?L = "fold (\<lambda>y. fold (initialStep dat w h params y) xs) ys l"
  show "result ?L = result l"
    by (rule fold2_same) (rule initialStep_same)
  show "visualization ?L = visualization l"
    by (rule fold2_same) (rule initialStep_same)
  show "hsvValues ?L = hsvValues l"
    by (rule fold2_same) (rule initialStep_same)
  show "blackPixelsMask ?L = blackPixelsMask l"
    by (rule fold2_same) (rule initialStep_same)
  show "finalMask ?L = finalMask l"
    by (rule fold2_same) (rule initialStep_same)
  show "openedMask ?L = openedMask l"
    by (rule fold2_same) (rule initialStep_same)
  show "blackPixels (statsVar ?L) = blackPixels (statsVar l)"
    by (rule fold2_same[where proj = "\<lambda>l. blackPixels (statsVar l)"]) (rule initialStep_same)
  show "replacedPixels (statsVar ?L) = replacedPixels (statsVar l)"
    by (rule fold2_same[where proj = "\<lambda>l. replacedPixels (statsVar l)"]) (rule initialStep_same)
qed

lemma initial_pass_mask:
  "initialMask (fold (\<lambda>y. fold (initialStep dat w h params y) [0..<w]) [0..<h] l)
     = fold (\<lambda>p m. if alphaAt dat p \<noteq> 0 \<and>
                       passesTests dat (hsvValues l) w h params (p div w) (p mod w)
                    then js_set m p True else m)
         [0..<h * w] (initialMask l)"
proof -
  have "initialMask (fold (\<lambda>y. fold (initialStep dat w h params y) [0..<w]) [0..<h] l)
     = fold (\<lambda>p m. if alphaAt dat (p div w * w + p mod w) \<noteq> 0 \<and>
                       passesTests dat (hsvValues l) w h params (p div w) (p mod w)
                    then js_set m (p div w * w + p mod w) True else m)
         [0..<h * w] (initialMask l)"
    by (rule fold2_proj[where frame = hsvValues
        and stepP = "\<lambda>H y x m. if alphaAt dat (y * w + x) \<noteq> 0 \<and> passesTests dat H w h params y x
                     then js_set m (y * w + x) True else m"])
       (simp_all add: initialStep_same initialStep_mask)
  then show ?thesis unfolding div_mult_mod_eq .
qed

text \<open>The third loop.\<close>

lemma final_pass_same:
  "result (fold (\<lambda>y. fold (finalStep w h params y) xs) ys l) = result l"
  "hsvValues (fold (\<lambda>y. fold (finalStep w h params y) xs) ys l) = hsvValues l"
  "blackPixelsMask (fold (\<lambda>y. fold (finalStep w h params y) xs) ys l) = blackPixelsMask l"
  "initialMask (fold (\<lambda>y. fold (finalStep w h params y) xs) ys l) = initialMask l"
  "openedMask (fold (\<lambda>y. fold (finalStep w h params y) xs) ys l) = openedMask l"
  "blackPixels (statsVar (fold (\<lambda>y. fold (finalStep w h params y) xs) ys l))
     = blackPixels (statsVar l)"
proof -
  let ?L = "fold (\<lambda>y. fold (finalStep w h params y) xs) ys l"
  show "result ?L = result l"
    by (rule fold2_same) (rule finalStep_same)
  show "hsvValues ?L = hsvValues l"
    by (rule fold2_same) (rule finalStep_same)
  show "blackPixelsMask ?L = blackPixelsMask l"
    by (rule fold2_same) (rule finalStep_same)
  show "initialMask ?L = initialMask l"
    by (rule fold2_same) (rule finalStep_same)
  show "openedMask ?L = openedMask l"
    by (rule fold2_same) (rule finalStep_same)
  show "blackPixels (statsVar ?L) = blackPixels (statsVar l)"
    by (rule fold2_same[where proj = "\<lambda>l. blackPixels (statsVar l)"]) (rule finalStep_same)
qed

lemma final_pass_mask:
  "finalMask (fold (\<lambda>y. fold (finalStep w h params y) [0..<w]) [0..<h] l)
     = fold (\<lambda>p m. if keptCandidate (initialMask l, blackPixelsMask l) w h
                         (structuringElementSize params) p
                    then js_set m p True else m)
         [0..<h * w] (finalMask l)"
proof -
  have "finalMask (fold (\<lambda>y. fold (finalStep w h params y) [0..<w]) [0..<h] l)
     = fold (\<lambda>p m. if mask_at (initialMask l) (p div w * w + p mod w) \<and>
              \<not> isNearBlackPixelOptimized (blackPixelsMask l) w h (p mod w) (p div w)
                  (structuringElementSize params)
                    then js_set m (p div w * w + p mod w) True else m)
         [0..<h * w] (finalMask l)"
    by (rule fold2_proj[where frame = "\<lambda>l. (initialMask l, blackPixelsMask l)"
        and stepP = "\<lambda>ms y x m. if mask_at (fst ms) (y * w + x) \<and>
              \<not> isNearBlackPixelOptimized (snd ms) w h x y (structuringElementSize params)
                     then js_set m (y * w + x) True else m", simplified])
       (simp_all add: finalStep_same finalStep_mask)
  then show ?thesis unfolding div_mult_mod_eq keptCandidate_def fst_conv snd_conv .
qed

lemma final_pass_count:
  "replacedPixels (statsVar (fold (\<lambda>y. fold (finalStep w h params y) [0..<w]) [0..<h] l))
     = fold (\<lambda>p k. if keptCandidate (initialMask l, blackPixelsMask l) w h
                         (structuringElementSize params) p
                    then k + 1 else k)
         [0..<h * w] (replacedPixels (statsVar l))"
proof -
  have "replacedPixels (statsVar (fold (\<lambda>y. fold (finalStep w h params y) [0..<w]) [0..<h] l))
     = fold (\<lambda>p k. if mask_at (initialMask l) (p div w * w + p mod w) \<and>
              \<not> isNearBlackPixelOptimized (blackPixelsMask l) w h (p mod w) (p div w)
                  (structuringElementSize params)
                    then k + 1 else k)
         [0..<h * w] (replacedPixels (statsVar l))"
    by (rule fold2_proj[where frame = "\<lambda>l. (initialMask l, blackPixelsMask l)"
        and proj = "\<lambda>l. replacedPixels (statsVar l)"
        and stepP = "\<lambda>ms y x k. if mask_at (fst ms) (y * w + x) \<and>
              \<not> isNearBlackPixelOptimized (snd ms) w h x y (structuringElementSize params)
                     then k + 1 else k", simplified])
       (simp_all add: finalStep_same finalStep_count)
  then show ?thesis unfolding div_mult_mod_eq keptCandidate_def fst_conv snd_conv .
qed

lemma final_pass_vis:
  "visualization (fold (\<lambda>y. fold (finalStep w h params y) [0..<w]) [0..<h] l)
     = fold (\<lambda>p xs. if savedCandidate (initialMask l, blackPixelsMask l) w h
                         (structuringElementSize params) p
                     then xs[p * 4 := 0, p * 4 + 1 := 0, p * 4 + 2 := 255] else xs)
         [0..<h * w] (visualization l)"
proof -
  have "visualization (fold (\<lambda>y. fold (finalStep w h params y) [0..<w]) [0..<h] l)
     = fold (\<lambda>p xs. if mask_at (initialMask l) (p div w * w + p mod w) \<and>
              isNearBlackPixelOptimized (blackPixelsMask l) w h (p mod w) (p div w)
                  (structuringElementSize params)
                    then xs[(p div w * w + p mod w) * 4 := 0, (p div w * w + p mod w) * 4 + 1 := 0,
                            (p div w * w + p mod w) * 4 + 2 := 255] else xs)
         [0..<h * w] (visualization l)"
    by (rule fold2_proj[where frame = "\<lambda>l. (initialMask l, blackPixelsMask l)"
        and stepP = "\<lambda>ms y x xs. if mask_at (fst ms) (y * w + x) \<and>
              isNearBlackPixelOptimized (snd ms) w h x y (structuringElementSize params)
                     then xs[(y * w + x) * 4 := 0, (y * w + x) * 4 + 1 := 0,
                             (y * w + x) * 4 + 2 := 255] else xs", simplified])
       (simp_all add: finalStep_same finalStep_vis)
  then show ?thesis unfolding div_mult_mod_eq savedCandidate_def fst_conv snd_conv .
qed

text \<open>The last loop.\<close>

lemma apply_pass_same:
  "statsVar (fold applyStep ps l) = statsVar l"
  "hsvValues (fold applyStep ps l) = hsvValues l"
  "blackPixelsMask (fold applyStep ps l) = blackPixelsMask l"
  "initialMask (fold applyStep ps l) = initialMask l"
  "finalMask (fold applyStep ps l) = finalMask l"
  "openedMask (fold applyStep ps l) = openedMask l"
proof -
  show "statsVar (fold applyStep ps l) = statsVar l"
    by (rule fold_same) (rule applyStep_same)
  show "hsvValues (fold applyStep ps l) = hsvValues l"
    by (rule fold_same) (rule applyStep_same)
  show "blackPixelsMask (fold applyStep ps l) = blackPixelsMask l"
    by (rule fold_same) (rule applyStep_same)
  show "initialMask (fold applyStep ps l) = initialMask l"
    by (rule fold_same) (rule applyStep_same)
  show "finalMask (fold applyStep ps l) = finalMask l"
    by (rule fold_same) (rule applyStep_same)
  show "openedMask (fold applyStep ps l) = openedMask l"
    by (rule fold_same) (rule applyStep_same)
qed

lemma apply_pass_result:
  "result (fold applyStep ps l)
     = fold (\<lambda>p xs. if mask_at (openedMask l) p
                     then xs[p * 4 := 0, p * 4 + 1 := 0, p * 4 + 2 := 0, p * 4 + 3 := 0] else xs)
         ps (result l)"
  by (rule fold_proj[where frame = openedMask
        and stepP = "\<lambda>om p xs. if mask_at om p
                     then xs[p * 4 := 0, p * 4 + 1 := 0, p * 4 + 2 := 0, p * 4 + 3 := 0] else xs"])
     (simp_all add: applyStep_same applyStep_result)

lemma apply_pass_vis:
  "visualization (fold applyStep ps l)
     = fold (\<lambda>p xs. if mask_at (openedMask l) p
                     then xs[p * 4 := 0, p * 4 + 1 := 255, p * 4 + 2 := 0] else xs)
         ps (visualization l)"
  by (rule fold_proj[where frame = openedMask
        and stepP = "\<lambda>om p xs. if mask_at om p
                     then xs[p * 4 := 0, p * 4 + 1 := 255, p * 4 + 2 := 0] else xs"])
     (simp_all add: applyStep_same applyStep_vis)


subsection \<open>The pipeline as a whole\<close>

lemma hsvLoop_length:
  assumes "length dat = 4 * w * h"
  shows "length (hsvLoop dat) = h * w"
proof -
  have "(4 * w * h + 3) div 4 = h * w" by (simp add: mult.commute mult.left_commute)
  then show ?thesis using assms by (simp add: hsvLoop_def)
qed

lemma pipeline_char:
  fixes img :: ImageData and params :: "'a ProcessingParams_scheme"
  defines "w \<equiv> width img" and "h \<equiv> height img" and "dat \<equiv> data img"
    and "L \<equiv> processImageLocals img params"
  assumes shape: "length (data img) = 4 * width img * height img"
  shows "hsvValues L = hsvLoop dat"
    and "length (blackPixelsMask L) = h * w"
    and "length (initialMask L) = h * w"
    and "length (finalMask L) = h * w"
    and "length (openedMask L) = h * w"
    and "length (result L) = length dat"
    and "length (visualization L) = length dat"
    and "\<And>p. p < h * w \<Longrightarrow>
           blackPixelsMask L ! p = (alphaAt dat p \<noteq> 0 \<and> isBlackPixel (hsvLoop dat) params p)"
    and "\<And>p. p < h * w \<Longrightarrow>
           initialMask L ! p = (alphaAt dat p \<noteq> 0 \<and>
              passesTests dat (hsvLoop dat) w h params (p div w) (p mod w))"
    and "\<And>p. p < h * w \<Longrightarrow>
           finalMask L ! p = (initialMask L ! p \<and>
              \<not> isNearBlackPixelOptimized (blackPixelsMask L) w h (p mod w) (p div w)
                  (structuringElementSize params))"
    and "openedMask L = morphologicalOpenMask (finalMask L) w h (morphOpeningKernelSize params)"
    and "\<And>i. i < length dat \<Longrightarrow>
           result L ! i = (if openedMask L ! (i div 4) then 0 else dat ! i)"
    and "\<And>i. i < length dat \<Longrightarrow>
           visualization L ! i =
             paint (openedMask L ! (i div 4)) 0 255 0 (i mod 4)
               (paint (initialMask L ! (i div 4) \<and>
                       isNearBlackPixelOptimized (blackPixelsMask L) w h
                         ((i div 4) mod w) ((i div 4) div w) (structuringElementSize params))
                  0 0 255 (i mod 4)
                  (paint (blackPixelsMask L ! (i div 4)) 255 0 0 (i mod 4) (dat ! i)))"
    and "blackPixels (statsVar L) = countTrue (blackPixelsMask L)"
    and "replacedPixels (statsVar L) = countTrue (finalMask L)"
proof -
  let ?N = "h * w"
  let ?H = "hsvLoop dat"
  let ?S = "structuringElementSize params"
  define l0 where "l0 = \<lparr>result = dat, visualization = dat, statsVar = initStats params,
      hsvValues = ?H, blackPixelsMask = replicate ?N False, initialMask = replicate ?N False,
      finalMask = replicate ?N False, openedMask = []\<rparr>"
  define l1 where "l1 = fold (blackStep dat params) [0..<?N] l0"
  define l2 where "l2 = fold (\<lambda>y. fold (initialStep dat w h params y) [0..<w]) [0..<h] l1"
  define l3 where "l3 = fold (\<lambda>y. fold (finalStep w h params y) [0..<w]) [0..<h] l2"
  define om where "om = morphologicalOpenMask (finalMask l3) w h (morphOpeningKernelSize params)"
  have shape': "length dat = 4 * w * h"
    using shape by (simp add: w_def h_def dat_def)
  have Hlen: "length ?H = ?N" by (rule hsvLoop_length[OF shape'])
  have wh: "w * h = h * w" by (rule mult.commute)
  have L: "L = fold applyStep [0..<length om] (l3\<lparr>openedMask := om\<rparr>)"
    unfolding L_def processImageLocals_def Let_def om_def l3_def l2_def l1_def l0_def
    by (simp only: copyLoop_id Hlen wh w_def[symmetric] h_def[symmetric] dat_def[symmetric]
          Locals.simps) simp
  \<comment> \<open>the read-only parts\<close>
  have H1: "hsvValues l1 = ?H" by (simp add: l1_def black_pass_same l0_def)
  have H2: "hsvValues l2 = ?H" by (simp add: l2_def initial_pass_same H1)
  show "hsvValues L = ?H"
    by (simp add: L apply_pass_same l3_def final_pass_same H2)
  \<comment> \<open>the black-pixel mask\<close>
  let ?cB = "\<lambda>p. alphaAt dat p \<noteq> 0"
  let ?vB = "\<lambda>p. isBlackPixel ?H params p"
  have B1: "blackPixelsMask l1
      = fold (\<lambda>p m. if ?cB p then js_set m p (?vB p) else m) [0..<?N] (replicate ?N False)"
    by (simp add: l1_def black_pass_mask l0_def cong: if_cong)
  have N0: "?N \<le> length (replicate ?N False)" by simp
  have B1len: "length (blackPixelsMask l1) = ?N"
    unfolding B1 using fold_mark[OF N0, of ?cB ?vB] by simp
  have B1nth: "blackPixelsMask l1 ! p = (?cB p \<and> ?vB p)" if "p < ?N" for p
    unfolding B1 using fold_mark[OF N0, of ?cB ?vB] that by simp
  have BL: "blackPixelsMask L = blackPixelsMask l1"
    by (simp add: L apply_pass_same l3_def final_pass_same l2_def initial_pass_same)
  show "length (blackPixelsMask L) = ?N" by (simp add: BL B1len)
  show Bnth: "blackPixelsMask L ! p = (alphaAt dat p \<noteq> 0 \<and> isBlackPixel ?H params p)"
    if "p < ?N" for p
    by (simp add: BL B1nth that)
  \<comment> \<open>the initial mask\<close>
  let ?cI = "\<lambda>p. alphaAt dat p \<noteq> 0 \<and> passesTests dat ?H w h params (p div w) (p mod w)"
  have I1: "initialMask l1 = replicate ?N False"
    by (simp add: l1_def black_pass_same l0_def)
  have I2: "initialMask l2
      = fold (\<lambda>p m. if ?cI p then js_set m p True else m) [0..<?N] (replicate ?N False)"
    by (simp add: l2_def initial_pass_mask H1 I1 cong: if_cong)
  have I2len: "length (initialMask l2) = ?N"
    unfolding I2 using fold_mark[OF N0, of ?cI "\<lambda>_. True"] by simp
  have I2nth: "initialMask l2 ! p = ?cI p" if "p < ?N" for p
    unfolding I2 using fold_mark[OF N0, of ?cI "\<lambda>_. True"] that by simp
  have IL: "initialMask L = initialMask l2"
    by (simp add: L apply_pass_same l3_def final_pass_same)
  show "length (initialMask L) = ?N" by (simp add: IL I2len)
  show "initialMask L ! p = (alphaAt dat p \<noteq> 0 \<and>
              passesTests dat ?H w h params (p div w) (p mod w))" if "p < ?N" for p
    by (simp add: IL I2nth that)
  \<comment> \<open>the final mask\<close>
  have B2: "blackPixelsMask l2 = blackPixelsMask l1"
    by (simp add: l2_def initial_pass_same)
  let ?cF = "keptCandidate (initialMask l2, blackPixelsMask l2) w h ?S"
  have F2: "finalMask l2 = replicate ?N False"
    by (simp add: l2_def initial_pass_same l1_def black_pass_same l0_def)
  have F3: "finalMask l3
      = fold (\<lambda>p m. if ?cF p then js_set m p True else m) [0..<?N] (replicate ?N False)"
    by (simp add: l3_def final_pass_mask F2 cong: if_cong)
  have F3len: "length (finalMask l3) = ?N"
    unfolding F3 using fold_mark[OF N0, of ?cF "\<lambda>_. True"] by simp
  have F3nth: "finalMask l3 ! p = ?cF p" if "p < ?N" for p
    unfolding F3 using fold_mark[OF N0, of ?cF "\<lambda>_. True"] that by simp
  have FL: "finalMask L = finalMask l3"
    by (simp add: L apply_pass_same)
  have cF: "?cF p = (initialMask L ! p \<and>
              \<not> isNearBlackPixelOptimized (blackPixelsMask L) w h (p mod w) (p div w) ?S)"
    if "p < ?N" for p
    using that by (simp add: keptCandidate_def mask_at_def I2len IL BL B2)
  show "length (finalMask L) = ?N" by (simp add: FL F3len)
  show Fnth: "finalMask L ! p = (initialMask L ! p \<and>
              \<not> isNearBlackPixelOptimized (blackPixelsMask L) w h (p mod w) (p div w) ?S)"
    if "p < ?N" for p
    using that by (simp only: FL F3nth cF)
  \<comment> \<open>the opened mask\<close>
  have OL: "openedMask L = om"
    by (simp add: L apply_pass_same)
  show "openedMask L = morphologicalOpenMask (finalMask L) w h (morphOpeningKernelSize params)"
    by (simp add: OL FL om_def)
  have omlen: "length om = ?N"
    unfolding om_def by (rule open_char(1)[OF F3len])
  show "length (openedMask L) = ?N" by (simp add: OL omlen)
  have om_at: "mask_at om q = openedMask L ! q" if "q < ?N" for q
    using that by (simp add: mask_at_def omlen OL)
  \<comment> \<open>the result buffer\<close>
  have R3: "result l3 = dat"
    by (simp add: l3_def final_pass_same l2_def initial_pass_same l1_def black_pass_same l0_def)
  have RL: "result L
      = fold (\<lambda>p xs. if mask_at om p
                     then xs[p * 4 := 0, p * 4 + 1 := 0, p * 4 + 2 := 0, p * 4 + 3 := 0] else xs)
         [0..<?N] dat"
    by (simp add: L apply_pass_result omlen R3 cong: if_cong)
  show "length (result L) = length dat"
    unfolding RL by (rule fold_paint4(1))
  have q_lt: "i div 4 < ?N" if "i < length dat" for i
    using that shape' by (simp add: mult.commute mult.left_commute less_mult_imp_div_less)
  show "result L ! i = (if openedMask L ! (i div 4) then 0 else dat ! i)" if "i < length dat" for i
    unfolding RL fold_paint4(2)[OF that] using q_lt[OF that] om_at by simp
  \<comment> \<open>the visualization buffer\<close>
  have V1: "visualization l1
      = fold (\<lambda>p xs. if ?cB p \<and> ?vB p
                     then xs[p * 4 := 255, p * 4 + 1 := 0, p * 4 + 2 := 0] else xs)
         [0..<?N] dat"
    by (simp add: l1_def black_pass_vis l0_def cong: if_cong)
  let ?cS = "savedCandidate (initialMask l2, blackPixelsMask l2) w h ?S"
  have V3: "visualization l3
      = fold (\<lambda>p xs. if ?cS p then xs[p * 4 := 0, p * 4 + 1 := 0, p * 4 + 2 := 255] else xs)
         [0..<?N] (visualization l1)"
    by (simp add: l3_def final_pass_vis l2_def initial_pass_same cong: if_cong)
  have VL: "visualization L
      = fold (\<lambda>p xs. if mask_at om p then xs[p * 4 := 0, p * 4 + 1 := 255, p * 4 + 2 := 0] else xs)
         [0..<?N] (visualization l3)"
    by (simp add: L apply_pass_vis omlen cong: if_cong)
  have V1len: "length (visualization l1) = length dat"
    unfolding V1 by (rule fold_paint3(1))
  have V3len: "length (visualization l3) = length dat"
    unfolding V3 using V1len by (simp add: fold_paint3(1))
  show "length (visualization L) = length dat"
    unfolding VL using V3len by (simp add: fold_paint3(1))
  have cS: "?cS q = (initialMask L ! q \<and>
              isNearBlackPixelOptimized (blackPixelsMask L) w h (q mod w) (q div w) ?S)"
    if "q < ?N" for q
    using that by (simp add: savedCandidate_def mask_at_def I2len IL BL B2)
  show "visualization L ! i =
             paint (openedMask L ! (i div 4)) 0 255 0 (i mod 4)
               (paint (initialMask L ! (i div 4) \<and>
                       isNearBlackPixelOptimized (blackPixelsMask L) w h
                         ((i div 4) mod w) ((i div 4) div w) ?S)
                  0 0 255 (i mod 4)
                  (paint (blackPixelsMask L ! (i div 4)) 255 0 0 (i mod 4) (dat ! i)))"
    if "i < length dat" for i
  proof -
    have i3: "i < length (visualization l3)" and i1: "i < length (visualization l1)"
      using that V3len V1len by simp_all
    have q: "i div 4 < ?N" by (rule q_lt[OF that])
    have a: "visualization l1 ! i = paint (blackPixelsMask L ! (i div 4)) 255 0 0 (i mod 4) (dat ! i)"
      unfolding V1 fold_paint3(2)[OF that] paint_def using q Bnth[OF q] by simp
    have b: "visualization l3 ! i
        = paint (?cS (i div 4)) 0 0 255 (i mod 4) (visualization l1 ! i)"
      unfolding V3 fold_paint3(2)[OF i1] paint_def using q by simp
    have c: "visualization L ! i
        = paint (openedMask L ! (i div 4)) 0 255 0 (i mod 4) (visualization l3 ! i)"
      unfolding VL fold_paint3(2)[OF i3] paint_def using q om_at[OF q] by simp
    show ?thesis
      by (simp only: c b a cS[OF q])
  qed
  \<comment> \<open>the two counters\<close>
  have "blackPixels (statsVar L) = blackPixels (statsVar l1)"
    by (simp add: L apply_pass_same l3_def final_pass_same l2_def initial_pass_same)
  also have "\<dots> = length (filter (\<lambda>p. ?cB p \<and> ?vB p) [0..<?N])"
    by (simp add: l1_def black_pass_count l0_def fold_count initStats_def)
  also have "\<dots> = length (filter (\<lambda>p. blackPixelsMask l1 ! p) [0..<?N])"
    by (rule arg_cong[where f = length], rule filter_cong) (simp_all add: B1nth)
  also have "\<dots> = countTrue (blackPixelsMask l1)"
    by (simp add: countTrue_def count_true_upt B1len)
  finally show "blackPixels (statsVar L) = countTrue (blackPixelsMask L)"
    by (simp add: BL)
  have "replacedPixels (statsVar L) = replacedPixels (statsVar l3)"
    by (simp add: L apply_pass_same)
  also have "\<dots> = length (filter ?cF [0..<?N])"
    by (simp add: l3_def final_pass_count l2_def initial_pass_same l1_def black_pass_same
          l0_def fold_count initStats_def)
  also have "\<dots> = length (filter (\<lambda>p. finalMask l3 ! p) [0..<?N])"
    by (rule arg_cong[where f = length], rule filter_cong) (simp_all add: F3nth)
  also have "\<dots> = countTrue (finalMask l3)"
    by (simp add: countTrue_def count_true_upt F3len)
  finally show "replacedPixels (statsVar L) = countTrue (finalMask L)"
    by (simp add: FL)
qed


lemma newImageData_ok:
  assumes "0 < w" "0 < h" "length d = 4 * w * h"
  shows "newImageData d w h = Inr \<lparr>width = w, height = h, data = d\<rparr>"
proof -
  have "length d = 4 * (w * h)" using assms by simp
  moreover have "0 < w * h" using assms by simp
  ultimately show ?thesis using assms(1) by (simp add: newImageData_def)
qed

lemma processImage_valid:
  assumes "validImageData img"
  shows "processImage img params =
           Inr \<lparr>processedImage =
                  \<lparr>width = width img, height = height img,
                   data = result (processImageLocals img params)\<rparr>,
                visualizationImage =
                  \<lparr>width = width img, height = height img,
                   data = visualization (processImageLocals img params)\<rparr>,
                stats = statsVar (processImageLocals img params)\<rparr>"
proof -
  from assms have w: "0 < width img" and h: "0 < height img"
    and shape: "length (data img) = 4 * width img * height img"
    by (simp_all add: validImageData_def)
  have r: "length (result (processImageLocals img params)) = 4 * width img * height img"
    using pipeline_char(6)[OF shape, of params] shape by simp
  have v: "length (visualization (processImageLocals img params)) = 4 * width img * height img"
    using pipeline_char(7)[OF shape, of params] shape by simp
  show ?thesis
    by (simp add: processImage_def Let_def newImageData_ok[OF w h r] newImageData_ok[OF w h v])
qed

lemma filter_disj_length:
  assumes "\<And>x. x \<in> set xs \<Longrightarrow> \<not> (A x \<and> B x)"
  shows "length (filter (\<lambda>x. A x \<or> B x) xs) = length (filter A xs) + length (filter B xs)"
  using assms by (induction xs) auto

lemma pixel_index:
  fixes p w h :: nat
  assumes "p < w * h" "k < 4"
  shows "p * 4 + k < 4 * w * h" "(p * 4 + k) div 4 = p" "(p * 4 + k) mod 4 = k"
  using assms by simp_all


lemma pixel_char:
  fixes img :: ImageData and params :: "'a ProcessingParams_scheme"
  defines "w \<equiv> width img" and "h \<equiv> height img" and "dat \<equiv> data img"
    and "L \<equiv> processImageLocals img params"
  assumes shape: "length (data img) = 4 * width img * height img"
    and p: "p < width img * height img"
  shows "pixelAt (result L) p = (if openedMask L ! p then (0, 0, 0, 0) else pixelAt dat p)"
    and "rgbAt (visualization L) p =
           (if openedMask L ! p then (0, 255, 0)
            else if initialMask L ! p \<and>
                    isNearBlackPixelOptimized (blackPixelsMask L) w h (p mod w) (p div w)
                      (structuringElementSize params) then (0, 0, 255)
            else if blackPixelsMask L ! p then (255, 0, 0)
            else rgbAt dat p)"
    and "alphaAt (visualization L) p = alphaAt dat p"
    and "alphaAt (result L) p = (if openedMask L ! p then 0 else alphaAt dat p)"
proof -
  have p': "p < w * h" using p by (simp add: w_def h_def)
  have len: "length dat = 4 * w * h" using shape by (simp add: w_def h_def dat_def)
  have i: "p * 4 + k < length dat" if "k < 4" for k
    using pixel_index(1)[OF p' that] len by simp
  have i0: "p * 4 < length dat" using i[of 0] by simp
  have i1: "p * 4 + 1 < length dat" using i[of 1] by simp
  have i2: "p * 4 + 2 < length dat" using i[of 2] by simp
  have i3: "p * 4 + 3 < length dat" using i[of 3] by simp
  note R = pipeline_char(12)[OF shape, of _ params, folded L_def dat_def]
  note V = pipeline_char(13)[OF shape, of _ params, folded L_def dat_def w_def h_def]
  have d: "(p * 4) div 4 = p" "(p * 4 + 1) div 4 = p" "(p * 4 + 2) div 4 = p" "(p * 4 + 3) div 4 = p"
    by simp_all
  have m: "(p * 4) mod 4 = 0" "(p * 4 + 1) mod 4 = 1" "(p * 4 + 2) mod 4 = 2" "(p * 4 + 3) mod 4 = 3"
    by presburger+
  show "pixelAt (result L) p = (if openedMask L ! p then (0, 0, 0, 0) else pixelAt dat p)"
    unfolding pixelAt_def R[OF i0] R[OF i1] R[OF i2]
      R[OF i3] d
    by simp
  show "alphaAt (result L) p = (if openedMask L ! p then 0 else alphaAt dat p)"
    unfolding alphaAt_def R[OF i3] d by simp
  show "alphaAt (visualization L) p = alphaAt dat p"
    unfolding alphaAt_def V[OF i3] d m paint_def by simp
  show "rgbAt (visualization L) p =
           (if openedMask L ! p then (0, 255, 0)
            else if initialMask L ! p \<and>
                    isNearBlackPixelOptimized (blackPixelsMask L) w h (p mod w) (p div w)
                      (structuringElementSize params) then (0, 0, 255)
            else if blackPixelsMask L ! p then (255, 0, 0)
            else rgbAt dat p)"
    unfolding rgbAt_def V[OF i0] V[OF i1] V[OF i2] d m paint_def
    by simp
qed

lemma mask_chain:
  fixes img :: ImageData and params :: "'a ProcessingParams_scheme"
  defines "w \<equiv> width img" and "h \<equiv> height img" and "dat \<equiv> data img"
    and "L \<equiv> processImageLocals img params"
  assumes shape: "length (data img) = 4 * width img * height img"
    and p: "p < width img * height img"
  shows "openedMask L ! p \<Longrightarrow> finalMask L ! p"
    and "finalMask L ! p \<Longrightarrow> initialMask L ! p"
    and "finalMask L ! p \<Longrightarrow>
           \<not> isNearBlackPixelOptimized (blackPixelsMask L) w h (p mod w) (p div w)
               (structuringElementSize params)"
    and "initialMask L ! p \<Longrightarrow> alphaAt dat p \<noteq> 0"
    and "initialMask L ! p \<Longrightarrow> passesTests dat (hsvLoop dat) w h params (p div w) (p mod w)"
    and "blackPixelsMask L ! p \<Longrightarrow> alphaAt dat p \<noteq> 0"
    and "blackPixelsMask L ! p \<Longrightarrow> isBlackPixel (hsvLoop dat) params p"
proof -
  have p': "p < h * w" using p by (simp add: w_def h_def mult.commute)
  note F = pipeline_char(10)[OF shape, of p params, folded L_def w_def h_def, OF p']
  note I = pipeline_char(9)[OF shape, of p params, folded L_def w_def h_def dat_def, OF p']
  note B = pipeline_char(8)[OF shape, of p params, folded L_def w_def h_def dat_def, OF p']
  note O = pipeline_char(11)[OF shape, of params, folded L_def w_def h_def]
  note Flen = pipeline_char(4)[OF shape, of params, folded L_def w_def h_def]
  show "openedMask L ! p \<Longrightarrow> finalMask L ! p"
    unfolding O by (rule open_subset[OF Flen p'])
  show "finalMask L ! p \<Longrightarrow> initialMask L ! p" using F by simp
  show "finalMask L ! p \<Longrightarrow>
           \<not> isNearBlackPixelOptimized (blackPixelsMask L) w h (p mod w) (p div w)
               (structuringElementSize params)" using F by simp
  show "initialMask L ! p \<Longrightarrow> alphaAt dat p \<noteq> 0" using I by simp
  show "initialMask L ! p \<Longrightarrow> passesTests dat (hsvLoop dat) w h params (p div w) (p mod w)"
    using I by simp
  show "blackPixelsMask L ! p \<Longrightarrow> alphaAt dat p \<noteq> 0" using B by simp
  show "blackPixelsMask L ! p \<Longrightarrow> isBlackPixel (hsvLoop dat) params p" using B by simp
qed


lemma countTransparent_split:
  fixes img :: ImageData and params :: "'a ProcessingParams_scheme"
  defines "L \<equiv> processImageLocals img params"
  assumes shape: "length (data img) = 4 * width img * height img"
  shows "countTransparent (result L) = countTrue (openedMask L) + countTransparent (data img)"
proof -
  let ?N = "height img * width img"
  let ?O = "\<lambda>p. openedMask L ! p"
  let ?T = "\<lambda>p. alphaAt (data img) p = 0"
  have Olen: "length (openedMask L) = ?N"
    unfolding L_def by (rule pipeline_char(5)[OF shape])
  have Rlen: "length (result L) = 4 * ?N"
    unfolding L_def using pipeline_char(6)[OF shape, of params] shape
    by (simp add: mult.commute mult.left_commute)
  have dlen: "length (data img) = 4 * ?N"
    using shape by (simp add: mult.commute mult.left_commute)
  have a: "alphaAt (result L) p = 0 \<longleftrightarrow> ?O p \<or> ?T p" if "p \<in> set [0..<?N]" for p
  proof -
    from that have p: "p < width img * height img" by (simp add: mult.commute)
    show ?thesis
      using pixel_char(4)[OF shape p, of params, folded L_def] by simp
  qed
  have disj: "\<not> (?O p \<and> ?T p)" if "p \<in> set [0..<?N]" for p
  proof -
    from that have p: "p < width img * height img" by (simp add: mult.commute)
    note chain = mask_chain[OF shape p, of params, folded L_def]
    show ?thesis using chain(1,2,4) by blast
  qed
  have "countTransparent (result L) = length (filter (\<lambda>p. alphaAt (result L) p = 0) [0..<?N])"
    by (simp add: countTransparent_def Rlen)
  also have "\<dots> = length (filter (\<lambda>p. ?O p \<or> ?T p) [0..<?N])"
    by (rule arg_cong[where f = length], rule filter_cong) (simp_all only: a)
  also have "\<dots> = length (filter ?O [0..<?N]) + length (filter ?T [0..<?N])"
    by (rule filter_disj_length) (rule disj)
  also have "length (filter ?O [0..<?N]) = countTrue (openedMask L)"
    by (simp add: countTrue_def count_true_upt Olen)
  also have "length (filter ?T [0..<?N]) = countTransparent (data img)"
    by (simp add: countTransparent_def dlen)
  finally show ?thesis .
qed

subsection \<open>The example rasters, evaluated\<close>

lemma singleton_mask: "length m = Suc 0 \<Longrightarrow> m = [m ! 0]"
  by (cases m) simp_all

lemma hsv_whitePixel: "hsvLoop (data whitePixel) = [(0, 0, 100)]"
  by (simp add: hsvLoop_def rgbToHsv_def Let_def whitePixel_def)

lemma hsv_grayPixel: "hsvLoop (data grayPixel) = [(0, 0, 80)]"
  by (simp add: hsvLoop_def rgbToHsv_def Let_def grayPixel_def)

lemma meanSat_single:
  "calculateLocalMeanSaturation dat [(hue, 0, v)] (Suc 0) (Suc 0) 0 0 12 = 0"
  by (simp add: calculateLocalMeanSaturation_eq kernelRange_def satTerm_def hsvS_def Let_def)

lemma open_single: "morphologicalOpenMask [True] (Suc 0) (Suc 0) 3 = [True]"
  by code_simp

lemma mask_at_False: "\<not> mask_at [False] i"
  by (cases i) (simp_all add: mask_at_def)

lemma near_none: "\<not> isNearBlackPixelOptimized [False] w h x y S"
  by (simp add: isNear_iff mask_at_False)

lemma whitePixel_masks:
  fixes params :: "'a ProcessingParams_scheme"
  defines "L \<equiv> processImageLocals whitePixel params"
  assumes "brightnessThreshold params = 78" "saturationThreshold params = 16"
    "meanSaturationThreshold params = 16" "blackPixelBrightnessThreshold params = 25"
    "blackPixelSaturationThreshold params = 31" "blurKernelSize params = 12"
    "morphOpeningKernelSize params = 3"
  shows "blackPixelsMask L = [False]" "initialMask L = [True]" "finalMask L = [True]"
    "openedMask L = [True]"
proof -
  have shape: "length (data whitePixel) = 4 * width whitePixel * height whitePixel"
    by (simp add: whitePixel_def)
  have w: "width whitePixel = 1" "height whitePixel = 1" by (simp_all add: whitePixel_def)
  have a: "alphaAt (data whitePixel) 0 \<noteq> 0" by (simp add: alphaAt_def whitePixel_def)
  note pc = pipeline_char[OF shape, where params = params, folded L_def, unfolded w hsv_whitePixel]
  have B0: "\<not> blackPixelsMask L ! 0"
    using pc(8)[of 0] assms(5) by (simp add: isBlackPixel_def hsvV_def)
  show B: "blackPixelsMask L = [False]"
    using singleton_mask[of "blackPixelsMask L"] pc(2) B0 by simp
  have I0: "initialMask L ! 0"
    using pc(9)[of 0] a assms(2,3,4,7)
    by (simp add: passesTests_def hsvV_def hsvS_def meanSat_single)
  show I: "initialMask L = [True]"
    using singleton_mask[of "initialMask L"] pc(3) I0 by simp
  have F0: "finalMask L ! 0"
    using pc(10)[of 0] I0 by (simp add: B near_none)
  show F: "finalMask L = [True]"
    using singleton_mask[of "finalMask L"] pc(4) F0 by simp
  show "openedMask L = [True]"
    using pc(11) assms(8) by (simp add: F open_single)
qed

lemma grayPixel_masks:
  defines "L \<equiv> processImageLocals grayPixel overlappingParams"
  shows "blackPixelsMask L ! 0" "initialMask L ! 0" "\<not> finalMask L ! 0" "\<not> openedMask L ! 0"
    "rgbAt (visualization L) 0 = (0, 0, 255)"
proof -
  have shape: "length (data grayPixel) = 4 * width grayPixel * height grayPixel"
    by (simp add: grayPixel_def)
  have p: "0 < width grayPixel * height grayPixel" by (simp add: grayPixel_def)
  have w: "width grayPixel = 1" "height grayPixel = 1" by (simp_all add: grayPixel_def)
  have a: "alphaAt (data grayPixel) 0 \<noteq> 0" by (simp add: alphaAt_def grayPixel_def)
  note pc = pipeline_char[OF shape, where params = overlappingParams, folded L_def, unfolded w hsv_grayPixel]
  note chain = mask_chain[OF shape p, where params = overlappingParams, folded L_def]
  note px = pixel_char[OF shape p, where params = overlappingParams, folded L_def, unfolded w]
  show B0: "blackPixelsMask L ! 0"
    using pc(8)[of 0] a
    by (simp add: isBlackPixel_def hsvV_def hsvS_def overlappingParams_def defaultParams_def)
  show I0: "initialMask L ! 0"
    using pc(9)[of 0] a
    by (simp add: passesTests_def hsvV_def hsvS_def meanSat_single overlappingParams_def
          defaultParams_def)
  have near: "isNearBlackPixelOptimized (blackPixelsMask L) 1 1 0 0
      (structuringElementSize overlappingParams)"
    using B0 pc(2)
    by (intro isNear_self) (simp_all add: mask_at_def overlappingParams_def defaultParams_def)
  show F0: "\<not> finalMask L ! 0"
    using pc(10)[of 0] near by simp
  show O0: "\<not> openedMask L ! 0"
    using chain(1) F0 by blast
  show "rgbAt (visualization L) 0 = (0, 0, 255)"
    using px(2) O0 I0 near by simp
qed

subsection \<open>The parameter extension and the fully transparent raster\<close>

lemma extend_fields:
  "brightnessThreshold (ProcessingParams.extend r m) = brightnessThreshold r"
  "saturationThreshold (ProcessingParams.extend r m) = saturationThreshold r"
  "meanSaturationThreshold (ProcessingParams.extend r m) = meanSaturationThreshold r"
  "blackPixelBrightnessThreshold (ProcessingParams.extend r m) = blackPixelBrightnessThreshold r"
  "blackPixelSaturationThreshold (ProcessingParams.extend r m) = blackPixelSaturationThreshold r"
  "structuringElementSize (ProcessingParams.extend r m) = structuringElementSize r"
  "blurKernelSize (ProcessingParams.extend r m) = blurKernelSize r"
  "morphOpeningKernelSize (ProcessingParams.extend r m) = morphOpeningKernelSize r"
  by (simp_all add: ProcessingParams.defs)

lemma steps_ignore_extension:
  "blackStep dat (ProcessingParams.extend r m) = blackStep dat (ProcessingParams.extend r m')"
  "initialStep dat w h (ProcessingParams.extend r m) = initialStep dat w h (ProcessingParams.extend r m')"
  "finalStep w h (ProcessingParams.extend r m) = finalStep w h (ProcessingParams.extend r m')"
  "initStats (ProcessingParams.extend r m) = initStats (ProcessingParams.extend r m')"
  unfolding blackStep_def initialStep_def finalStep_def initStats_def extend_fields
  by (rule refl)+

lemma locals_ignore_extension:
  "processImageLocals img (ProcessingParams.extend r m)
     = processImageLocals img (ProcessingParams.extend r m')"
  unfolding processImageLocals_def extend_fields
    steps_ignore_extension(1)[of _ r m m'] steps_ignore_extension(2)[of _ _ _ r m m']
    steps_ignore_extension(3)[of _ _ r m m'] steps_ignore_extension(4)[of r m m']
  by (rule refl)

lemma processImageWithParams_ignores_mask:
  "processImageWithParams img params wl = processImageWithParams img params wl'"
  unfolding processImageWithParams_def processImage_def Let_def
  by (simp only: locals_ignore_extension
        [of img params "ParamsWithWhitelist.fields wl" "ParamsWithWhitelist.fields wl'"])

lemma pipeline_transparent:
  fixes img :: ImageData and params :: "'a ProcessingParams_scheme"
  assumes shape: "length (data img) = 4 * width img * height img"
    and clear: "\<And>p. p < width img * height img \<Longrightarrow> alphaAt (data img) p = 0"
  shows "statsVar (processImageLocals img params) = initStats params"
    and "result (processImageLocals img params) = data img"
    and "visualization (processImageLocals img params) = data img"
proof -
  let ?w = "width img" and ?h = "height img" and ?dat = "data img"
  let ?N = "?h * ?w"
  let ?L = "processImageLocals img params"
  define l0 where "l0 = \<lparr>result = ?dat, visualization = ?dat, statsVar = initStats params,
      hsvValues = hsvLoop ?dat, blackPixelsMask = replicate ?N False,
      initialMask = replicate ?N False, finalMask = replicate ?N False, openedMask = []\<rparr>"
  define om where "om = morphologicalOpenMask (finalMask l0) ?w ?h (morphOpeningKernelSize params)"
  have Hlen: "length (hsvLoop ?dat) = ?N" by (rule hsvLoop_length[OF shape])
  have wh: "?w * ?h = ?N" by (rule mult.commute)
  have cell: "alphaAt ?dat (y * ?w + x) = 0" if "y < ?h" "x < ?w" for y x
    using cell_index(1)[OF that] clear by (simp add: mult.commute)
  have s1: "fold (blackStep ?dat params) [0..<?N] l0 = l0"
    by (rule fold_idle) (simp add: blackStep_idle clear mult.commute)
  have s2: "fold (\<lambda>y. fold (initialStep ?dat ?w ?h params y) [0..<?w]) [0..<?h] l0 = l0"
    by (rule fold2_idle) (simp add: initialStep_idle cell)
  have s3: "fold (\<lambda>y. fold (finalStep ?w ?h params y) [0..<?w]) [0..<?h] l0 = l0"
    by (rule fold2_idle) (simp add: finalStep_idle mask_at_def l0_def cell_index(1))
  have n0: "length (hsvValues l0) = ?N" by (simp add: l0_def Hlen)
  have L: "?L = fold applyStep [0..<length om] (l0\<lparr>openedMask := om\<rparr>)"
    unfolding processImageLocals_def Let_def copyLoop_id wh
    unfolding l0_def[symmetric] n0 s1 s2 s3 om_def[symmetric]
    by simp
  show "statsVar ?L = initStats params"
    by (simp add: L apply_pass_same l0_def)
  have Flen: "length (finalMask l0) = ?N" by (simp add: l0_def)
  have omlen: "length om = ?N"
    unfolding om_def by (rule open_char(1)[OF Flen])
  have om_none: "\<not> mask_at om p" for p
  proof
    assume m: "mask_at om p"
    then have p: "p < ?N" by (simp add: mask_at_def omlen)
    from m have "morphologicalOpenMask (finalMask l0) ?w ?h (morphOpeningKernelSize params) ! p"
      by (simp add: mask_at_def om_def)
    from open_subset[OF Flen p this] p show False by (simp add: l0_def)
  qed
  have "fold applyStep [0..<length om] (l0\<lparr>openedMask := om\<rparr>) = l0\<lparr>openedMask := om\<rparr>"
    by (rule fold_idle) (simp add: applyStep_idle om_none)
  then have L': "?L = l0\<lparr>openedMask := om\<rparr>" by (simp only: L)
  show "result ?L = ?dat" by (simp add: L' l0_def)
  show "visualization ?L = ?dat" by (simp add: L' l0_def)
qed

lemma zero_counters:
  "brightPixels (initStats params) = 0" "lowSaturationPixels (initStats params) = 0"
  "candidateArtifacts (initStats params) = 0" "lowSaturationAreas (initStats params) = 0"
  "nearBlackPixels (initStats params) = 0" "replacedPixels (initStats params) = 0"
  "blackPixels (initStats params) = 0"
  by (simp_all add: initStats_def)

subsection \<open>The clipped window as a set\<close>

lemma clippedWindow_kernelRange: "clippedWindow c bound half = set (kernelRange c bound half)"
proof (rule set_eqI)
  fix k
  show "k \<in> clippedWindow c bound half \<longleftrightarrow> k \<in> set (kernelRange c bound half)"
    unfolding kernelRange_iff clippedWindow_def by simp
qed

lemma sum_list_kernelRange:
  "(\<Sum>k\<leftarrow>kernelRange c bound half. f k) = (\<Sum>k\<in>clippedWindow c bound half. f k)"
  unfolding clippedWindow_kernelRange
  by (rule sum_list_distinct_conv_sum_set) (rule kernelRange_distinct)

lemma length_kernelRange: "length (kernelRange c bound half) = card (clippedWindow c bound half)"
  unfolding clippedWindow_kernelRange
  by (rule distinct_card[symmetric]) (rule kernelRange_distinct)

lemma hsv_redPixel: "hsvLoop (data redPixel) = [(0, 100, 100)]"
  by (simp add: hsvLoop_def rgbToHsv_def Let_def redPixel_def)

lemma window_single: "clippedWindow 0 (Suc 0) 1 = {0}"
  unfolding clippedWindow_def by auto

section \<open>Verified properties\<close>

subsection \<open>Morphological opening\<close>

text \<open>
  Claim C5. Opening is idempotent: for every boolean mask with one entry per pixel of a
  \<open>w \<times> h\<close> raster and every kernel size \<open>K\<close> (in particular every odd \<open>K \<ge> 3\<close>), opening the
  opened mask again with the same kernel gives the opened mask, where opening is erosion
  followed by dilation, both with windows clipped at the image edges.
\<close>

theorem opening_idempotent:
  assumes "length m = w * h"
  shows "morphologicalOpenMask (morphologicalOpenMask m w h K) w h K
           = morphologicalOpenMask m w h K"
proof -
  have len: "length m = h * w" using assms by (simp add: mult.commute)
  have "morphologicalOpenMask (morphologicalOpenMask m w h K) w h K
          = dilateMask (erodeMask (morphologicalOpenMask m w h K) w h K) w h K"
    by (simp add: morphologicalOpenMask_def)
  also have "\<dots> = dilateMask (erodeMask m w h K) w h K"
    by (simp only: erode_open[OF len])
  also have "\<dots> = morphologicalOpenMask m w h K"
    by (simp add: morphologicalOpenMask_def)
  finally show ?thesis .
qed

theorem opening_idempotent_witness:
  "length [True, False, True, True, True] = 5 * 1 \<and>
   morphologicalOpenMask [True, False, True, True, True] 5 1 3
     = [False, False, True, True, True] \<and>
   morphologicalOpenMask (morphologicalOpenMask [True, False, True, True, True] 5 1 3) 5 1 3
     = morphologicalOpenMask [True, False, True, True, True] 5 1 3"
proof -
  have h: "length [True, False, True, True, True] = 5 * 1" by simp
  have v: "morphologicalOpenMask [True, False, True, True, True] 5 1 3
             = [False, False, True, True, True]"
    by code_simp
  from h v opening_idempotent[OF h, of 3] show ?thesis by blast
qed

subsection \<open>Proximity test\<close>

text \<open>
  Claim C8. For every black-pixel mask of a \<open>w \<times> h\<close> raster, pixel \<open>(x, y)\<close> and
  structuring-element size \<open>S\<close>, with \<open>r = \<lfloor>S / 2\<rfloor>\<close>: the proximity test returns true if
  and only if some in-bounds cell \<open>(kx, ky)\<close> of the bounding box
  \<open>[y - r, y + r] \<times> [x - r, x + r]\<close> has squared Euclidean distance to \<open>(x, y)\<close> at most
  \<open>r\<^sup>2\<close> and a true mask entry. The order of the scan does not matter: scanning the same
  rows and columns in any other order gives the same answer.
\<close>

theorem proximity_test_semantics:
  assumes "length m = w * h"
  shows "(isNearBlackPixelOptimized m w h x y S \<longleftrightarrow>
           (\<exists>ky kx. ky < h \<and> kx < w \<and>
              int y - \<lfloor>S / 2\<rfloor> \<le> int ky \<and> int ky \<le> int y + \<lfloor>S / 2\<rfloor> \<and>
              int x - \<lfloor>S / 2\<rfloor> \<le> int kx \<and> int kx \<le> int x + \<lfloor>S / 2\<rfloor> \<and>
              (int kx - int x)\<^sup>2 + (int ky - int y)\<^sup>2 \<le> \<lfloor>S / 2\<rfloor>\<^sup>2 \<and>
              m ! (ky * w + kx))) \<and>
         (\<forall>kys kxs. set kys = set (kernelRange y h \<lfloor>S / 2\<rfloor>) \<longrightarrow>
                    set kxs = set (kernelRange x w \<lfloor>S / 2\<rfloor>) \<longrightarrow>
            nearBlackRows m w x y (\<lfloor>S / 2\<rfloor> * \<lfloor>S / 2\<rfloor>) kxs kys
              = isNearBlackPixelOptimized m w h x y S)"
proof (intro conjI allI impI)
  have at: "mask_at m (ky * w + kx) = m ! (ky * w + kx)" if "ky < h" "kx < w" for ky kx
    using cell_index(1)[OF that] assms by (simp add: mask_at_def mult.commute)
  show "isNearBlackPixelOptimized m w h x y S \<longleftrightarrow>
           (\<exists>ky kx. ky < h \<and> kx < w \<and>
              int y - \<lfloor>S / 2\<rfloor> \<le> int ky \<and> int ky \<le> int y + \<lfloor>S / 2\<rfloor> \<and>
              int x - \<lfloor>S / 2\<rfloor> \<le> int kx \<and> int kx \<le> int x + \<lfloor>S / 2\<rfloor> \<and>
              (int kx - int x)\<^sup>2 + (int ky - int y)\<^sup>2 \<le> \<lfloor>S / 2\<rfloor>\<^sup>2 \<and>
              m ! (ky * w + kx))"
    unfolding isNear_iff power2_eq_square Bex_def kernelRange_iff
    using at by blast
  fix kys kxs
  assume "set kys = set (kernelRange y h \<lfloor>S / 2\<rfloor>)" "set kxs = set (kernelRange x w \<lfloor>S / 2\<rfloor>)"
  then show "nearBlackRows m w x y (\<lfloor>S / 2\<rfloor> * \<lfloor>S / 2\<rfloor>) kxs kys
           = isNearBlackPixelOptimized m w h x y S"
    unfolding isNear_iff nearBlackRows_iff by simp
qed

theorem proximity_test_semantics_witness:
  "length [False, False, False, False, False, True] = 3 * 2 \<and>
   isNearBlackPixelOptimized [False, False, False, False, False, True] 3 2 1 0 5 \<and>
   \<not> isNearBlackPixelOptimized [False, False, False, False, False, True] 3 2 1 0 3 \<and>
   nearBlackRows [False, False, False, False, False, True] 3 1 0 (\<lfloor>5 / 2 :: real\<rfloor> * \<lfloor>5 / 2 :: real\<rfloor>)
     [2, 1, 0] [1, 0]"
proof -
  let ?m = "[False, False, False, False, False, True]"
  have h: "length ?m = 3 * 2" by simp
  have ys: "set [1, 0] = set (kernelRange 0 2 \<lfloor>5 / 2 :: real\<rfloor>)"
    by code_simp
  have xs: "set [2, 1, 0] = set (kernelRange 1 3 \<lfloor>5 / 2 :: real\<rfloor>)"
    by code_simp
  have a: "isNearBlackPixelOptimized ?m 3 2 1 0 5"
    by code_simp
  have b: "\<not> isNearBlackPixelOptimized ?m 3 2 1 0 3"
    by code_simp
  from a b h ys xs proximity_test_semantics[OF h, of 1 0 5] show ?thesis by blast
qed


subsection \<open>Masks\<close>

text \<open>
  Claim C4. Mask monotonicity: for every raster and parameter record, the final removal
  mask is a subset of the initial candidate mask and the opened mask is a subset of the
  final mask, so every pixel that the cleaned output changes (the pixels made transparent)
  is an initial candidate; and every initial candidate passed the brightness, the
  saturation and the local-mean-saturation test.
\<close>

theorem mask_monotonicity:
  fixes img :: ImageData and params :: "'a ProcessingParams_scheme"
  defines "L \<equiv> processImageLocals img params"
  assumes "validImageData img" and "p < width img * height img"
  shows "(finalMask L ! p \<longrightarrow> initialMask L ! p) \<and>
         (openedMask L ! p \<longrightarrow> finalMask L ! p) \<and>
         (initialMask L ! p \<longrightarrow>
            passesTests (data img) (hsvLoop (data img)) (width img) (height img) params
              (p div width img) (p mod width img)) \<and>
         (\<exists>res. processImage img params = Inr res \<and>
            (pixelAt (data (processedImage res)) p \<noteq> pixelAt (data img) p
               \<longrightarrow> openedMask L ! p \<and> initialMask L ! p))"
proof -
  from assms(2) have shape: "length (data img) = 4 * width img * height img"
    by (simp add: validImageData_def)
  note chain = mask_chain[OF shape assms(3), of params, folded L_def]
  note px = pixel_char(1)[OF shape assms(3), of params, folded L_def]
  have "pixelAt (result L) p \<noteq> pixelAt (data img) p \<longrightarrow> openedMask L ! p \<and> initialMask L ! p"
    using px chain(1,2) by (cases "openedMask L ! p") simp_all
  then have "\<exists>res. processImage img params = Inr res \<and>
            (pixelAt (data (processedImage res)) p \<noteq> pixelAt (data img) p
               \<longrightarrow> openedMask L ! p \<and> initialMask L ! p)"
    by (simp add: processImage_valid[OF assms(2)] L_def)
  then show ?thesis using chain(1,2,5) by blast
qed

theorem mask_monotonicity_witness:
  "validImageData whitePixel \<and> 0 < width whitePixel * height whitePixel \<and>
   openedMask (processImageLocals whitePixel defaultParams) ! 0 \<and>
   finalMask (processImageLocals whitePixel defaultParams) ! 0 \<and>
   initialMask (processImageLocals whitePixel defaultParams) ! 0 \<and>
   passesTests (data whitePixel) (hsvLoop (data whitePixel)) (width whitePixel)
     (height whitePixel) defaultParams (0 div width whitePixel) (0 mod width whitePixel)"
proof -
  have v: "validImageData whitePixel" by (simp add: validImageData_def whitePixel_def)
  have p: "0 < width whitePixel * height whitePixel" by (simp add: whitePixel_def)
  have o: "openedMask (processImageLocals whitePixel defaultParams) ! 0"
    by (simp add: whitePixel_masks(4) defaultParams_def)
  from mask_monotonicity[OF v p, of defaultParams] o v p show ?thesis by blast
qed

text \<open>
  Claim C6. Transparency preservation: a source pixel whose alpha is 0 is never set in the
  black-pixel mask, in the initial candidate mask, in the final removal mask or in the
  opened mask, and all four of its channels are the same in the cleaned and in the
  visualization output as in the source, so its alpha stays 0 in both.
\<close>

theorem transparency_preservation:
  fixes img :: ImageData and params :: "'a ProcessingParams_scheme"
  defines "L \<equiv> processImageLocals img params"
  assumes "validImageData img" and "p < width img * height img"
    and "alphaAt (data img) p = 0"
  shows "\<not> blackPixelsMask L ! p \<and> \<not> initialMask L ! p \<and> \<not> finalMask L ! p \<and>
         \<not> openedMask L ! p \<and>
         (\<exists>res. processImage img params = Inr res \<and>
            pixelAt (data (processedImage res)) p = pixelAt (data img) p \<and>
            pixelAt (data (visualizationImage res)) p = pixelAt (data img) p \<and>
            alphaAt (data (processedImage res)) p = 0 \<and>
            alphaAt (data (visualizationImage res)) p = 0)"
proof -
  from assms(2) have shape: "length (data img) = 4 * width img * height img"
    by (simp add: validImageData_def)
  note chain = mask_chain[OF shape assms(3), of params, folded L_def]
  note px = pixel_char[OF shape assms(3), of params, folded L_def]
  have B: "\<not> blackPixelsMask L ! p" using chain(6) assms(4) by blast
  have I: "\<not> initialMask L ! p" using chain(4) assms(4) by blast
  have F: "\<not> finalMask L ! p" using chain(2) I by blast
  have O: "\<not> openedMask L ! p" using chain(1) F by blast
  have r: "pixelAt (result L) p = pixelAt (data img) p" using px(1) O by simp
  have ra: "alphaAt (result L) p = 0" using px(4) O assms(4) by simp
  have va: "alphaAt (visualization L) p = 0" using px(3) assms(4) by simp
  have "rgbAt (visualization L) p = rgbAt (data img) p" using px(2) O I B by simp
  then have v: "pixelAt (visualization L) p = pixelAt (data img) p"
    using px(3) by (simp add: pixelAt_def rgbAt_def alphaAt_def)
  have "\<exists>res. processImage img params = Inr res \<and>
            pixelAt (data (processedImage res)) p = pixelAt (data img) p \<and>
            pixelAt (data (visualizationImage res)) p = pixelAt (data img) p \<and>
            alphaAt (data (processedImage res)) p = 0 \<and>
            alphaAt (data (visualizationImage res)) p = 0"
    using r v ra va by (simp add: processImage_valid[OF assms(2)] L_def)
  then show ?thesis using B I F O by blast
qed

theorem transparency_preservation_witness:
  "validImageData clearWhiteRow \<and> 0 < width clearWhiteRow * height clearWhiteRow \<and>
   alphaAt (data clearWhiteRow) 0 = 0 \<and>
   \<not> blackPixelsMask (processImageLocals clearWhiteRow defaultParams) ! 0 \<and>
   \<not> initialMask (processImageLocals clearWhiteRow defaultParams) ! 0 \<and>
   \<not> finalMask (processImageLocals clearWhiteRow defaultParams) ! 0 \<and>
   \<not> openedMask (processImageLocals clearWhiteRow defaultParams) ! 0 \<and>
   (\<exists>res. processImage clearWhiteRow defaultParams = Inr res \<and>
      pixelAt (data (processedImage res)) 0 = pixelAt (data clearWhiteRow) 0 \<and>
      pixelAt (data (visualizationImage res)) 0 = pixelAt (data clearWhiteRow) 0 \<and>
      alphaAt (data (processedImage res)) 0 = 0 \<and>
      alphaAt (data (visualizationImage res)) 0 = 0)"
proof -
  have v: "validImageData clearWhiteRow" by (simp add: validImageData_def clearWhiteRow_def)
  have p: "0 < width clearWhiteRow * height clearWhiteRow" by (simp add: clearWhiteRow_def)
  have a: "alphaAt (data clearWhiteRow) 0 = 0" by (simp add: alphaAt_def clearWhiteRow_def)
  from transparency_preservation[OF v p a, of defaultParams] v p a show ?thesis by blast
qed

text \<open>
  Claim C10. Black pixels are never erased: for every raster and every parameter record
  with structuring-element size \<open>S \<ge> 0\<close>, a pixel whose black-pixel-mask entry is true passes
  the proximity test itself (the neighbourhood contains its centre), is therefore not in
  the final mask nor in the opened mask, and keeps its four channels, with a non-zero
  alpha, in the cleaned output.
\<close>

theorem black_pixels_never_erased:
  fixes img :: ImageData and params :: "'a ProcessingParams_scheme"
  defines "L \<equiv> processImageLocals img params"
  assumes "validImageData img" and "p < width img * height img"
    and "0 \<le> structuringElementSize params"
    and "blackPixelsMask L ! p"
  shows "isNearBlackPixelOptimized (blackPixelsMask L) (width img) (height img)
           (p mod width img) (p div width img) (structuringElementSize params) \<and>
         \<not> finalMask L ! p \<and> \<not> openedMask L ! p \<and>
         (\<exists>res. processImage img params = Inr res \<and>
            pixelAt (data (processedImage res)) p = pixelAt (data img) p \<and>
            alphaAt (data (processedImage res)) p \<noteq> 0)"
proof -
  from assms(2) have shape: "length (data img) = 4 * width img * height img"
    by (simp add: validImageData_def)
  note chain = mask_chain[OF shape assms(3), of params, folded L_def]
  note px = pixel_char[OF shape assms(3), of params, folded L_def]
  have p': "p < height img * width img" using assms(3) by (simp add: mult.commute)
  have Blen: "length (blackPixelsMask L) = height img * width img"
    unfolding L_def by (rule pipeline_char(2)[OF shape])
  have "mask_at (blackPixelsMask L) (p div width img * width img + p mod width img)"
    using assms(5) p' Blen by (simp add: mask_at_def)
  then have near: "isNearBlackPixelOptimized (blackPixelsMask L) (width img) (height img)
           (p mod width img) (p div width img) (structuringElementSize params)"
    using index_cell(1,2)[OF p'] assms(4) by (intro isNear_self) simp_all
  have F: "\<not> finalMask L ! p" using chain(3) near by blast
  have O: "\<not> openedMask L ! p" using chain(1) F by blast
  have r: "pixelAt (result L) p = pixelAt (data img) p" using px(1) O by simp
  have ra: "alphaAt (result L) p \<noteq> 0" using px(4) O chain(6) assms(5) by simp
  have "\<exists>res. processImage img params = Inr res \<and>
            pixelAt (data (processedImage res)) p = pixelAt (data img) p \<and>
            alphaAt (data (processedImage res)) p \<noteq> 0"
    using r ra by (simp add: processImage_valid[OF assms(2)] L_def)
  then show ?thesis using near F O by blast
qed

theorem black_pixels_never_erased_witness:
  "validImageData grayPixel \<and> 0 < width grayPixel * height grayPixel \<and>
   0 \<le> structuringElementSize overlappingParams \<and>
   blackPixelsMask (processImageLocals grayPixel overlappingParams) ! 0 \<and>
   initialMask (processImageLocals grayPixel overlappingParams) ! 0 \<and>
   \<not> finalMask (processImageLocals grayPixel overlappingParams) ! 0 \<and>
   \<not> openedMask (processImageLocals grayPixel overlappingParams) ! 0 \<and>
   (\<exists>res. processImage grayPixel overlappingParams = Inr res \<and>
      pixelAt (data (processedImage res)) 0 = pixelAt (data grayPixel) 0 \<and>
      alphaAt (data (processedImage res)) 0 \<noteq> 0)"
proof -
  have v: "validImageData grayPixel" by (simp add: validImageData_def grayPixel_def)
  have p: "0 < width grayPixel * height grayPixel" by (simp add: grayPixel_def)
  have s: "0 \<le> structuringElementSize overlappingParams"
    by (simp add: overlappingParams_def defaultParams_def)
  note b = grayPixel_masks(1)
  note i = grayPixel_masks(2)
  from black_pixels_never_erased[OF v p s b] v p s b i show ?thesis by blast
qed

subsection \<open>Statistics\<close>

text \<open>
  Claim C3, as amended. For every raster and parameter record, \<open>stats.blackPixels\<close> is the
  number of true entries of the black-pixel mask, \<open>stats.replacedPixels\<close> is the number of
  true entries of the final mask before opening, and the number of pixels with alpha 0 in
  the cleaned raster is the number of true entries of the opened mask plus the number of
  pixels that were already transparent in the source.
\<close>

theorem statistic_consistency:
  fixes img :: ImageData and params :: "'a ProcessingParams_scheme"
  defines "L \<equiv> processImageLocals img params"
  assumes "validImageData img"
  shows "\<exists>res. processImage img params = Inr res \<and>
           blackPixels (stats res) = countTrue (blackPixelsMask L) \<and>
           replacedPixels (stats res) = countTrue (finalMask L) \<and>
           countTransparent (data (processedImage res))
             = countTrue (openedMask L) + countTransparent (data img)"
proof -
  from assms(2) have shape: "length (data img) = 4 * width img * height img"
    by (simp add: validImageData_def)
  show ?thesis
    using pipeline_char(14,15)[OF shape, of params] countTransparent_split[OF shape, of params]
    by (simp add: processImage_valid[OF assms(2)] L_def)
qed

theorem statistic_consistency_witness:
  "validImageData clearWhiteRow \<and>
   (\<exists>res. processImage clearWhiteRow defaultParams = Inr res \<and>
      blackPixels (stats res) = countTrue (blackPixelsMask (processImageLocals clearWhiteRow defaultParams)) \<and>
      replacedPixels (stats res) = countTrue (finalMask (processImageLocals clearWhiteRow defaultParams)) \<and>
      countTransparent (data (processedImage res))
        = countTrue (openedMask (processImageLocals clearWhiteRow defaultParams))
          + countTransparent (data clearWhiteRow))"
proof -
  have v: "validImageData clearWhiteRow" by (simp add: validImageData_def clearWhiteRow_def)
  from statistic_consistency[OF v, of defaultParams] v show ?thesis by blast
qed

text \<open>
  The claim as stated fails on a raster with a transparent source pixel: the cleaned
  raster of the single transparent pixel has one pixel with alpha 0, and the opened
  mask has no true entry.
\<close>

theorem statistic_consistency_counterexample:
  "\<not> isl (processImage clearPixel defaultParams) \<and>
   countTransparent (data (processedImage (projr (processImage clearPixel defaultParams))))
     \<noteq> countTrue (openedMask (processImageLocals clearPixel defaultParams))"
proof -
  have v: "validImageData clearPixel" by (simp add: validImageData_def clearPixel_def)
  have shape: "length (data clearPixel) = 4 * width clearPixel * height clearPixel"
    by (simp add: clearPixel_def)
  have "countTransparent (data clearPixel) = 1"
    by (simp add: countTransparent_def alphaAt_def clearPixel_def)
  then have "countTransparent (result (processImageLocals clearPixel defaultParams))
      \<noteq> countTrue (openedMask (processImageLocals clearPixel defaultParams))"
    using countTransparent_split[OF shape, of defaultParams] by simp
  then show ?thesis by (simp add: processImage_valid[OF v])
qed

subsection \<open>Colours of the visualization\<close>

text \<open>
  Claim C7, as amended. Call a pixel green when its opened-mask entry is true, blue when
  it is an initial candidate that passes the proximity test, and red when its
  black-pixel-mask entry is true. For every raster and parameter record: the green pixels
  are exactly the pixels set to transparent black in the cleaned raster (every other
  pixel is copied from the source); the colour channels of the visualization are green
  for a green pixel, else blue for a blue pixel, else red for a red pixel, else those of
  the source, and its alpha is that of the source; no pixel is both blue and green; and
  when the black-pixel brightness threshold is at most the brightness threshold, a red
  pixel is neither blue nor green, so that no pixel is coloured by two rules.
\<close>

theorem colour_coding:
  fixes img :: ImageData and params :: "'a ProcessingParams_scheme"
  defines "L \<equiv> processImageLocals img params"
  defines "green \<equiv> \<lambda>p. openedMask L ! p"
  defines "blue \<equiv> \<lambda>p. initialMask L ! p \<and>
             isNearBlackPixelOptimized (blackPixelsMask L) (width img) (height img)
               (p mod width img) (p div width img) (structuringElementSize params)"
  defines "red \<equiv> \<lambda>p. blackPixelsMask L ! p"
  assumes "validImageData img" and "p < width img * height img"
  shows "(\<exists>res. processImage img params = Inr res \<and>
            pixelAt (data (processedImage res)) p
              = (if green p then (0, 0, 0, 0) else pixelAt (data img) p) \<and>
            rgbAt (data (visualizationImage res)) p
              = (if green p then (0, 255, 0) else if blue p then (0, 0, 255)
                 else if red p then (255, 0, 0) else rgbAt (data img) p) \<and>
            alphaAt (data (visualizationImage res)) p = alphaAt (data img) p) \<and>
         \<not> (blue p \<and> green p) \<and>
         (blackPixelBrightnessThreshold params \<le> brightnessThreshold params
            \<longrightarrow> \<not> (red p \<and> blue p) \<and> \<not> (red p \<and> green p))"
proof -
  from assms(5) have shape: "length (data img) = 4 * width img * height img"
    by (simp add: validImageData_def)
  note chain = mask_chain[OF shape assms(6), of params, folded L_def]
  note px = pixel_char[OF shape assms(6), of params, folded L_def]
  have out: "\<exists>res. processImage img params = Inr res \<and>
            pixelAt (data (processedImage res)) p
              = (if green p then (0, 0, 0, 0) else pixelAt (data img) p) \<and>
            rgbAt (data (visualizationImage res)) p
              = (if green p then (0, 255, 0) else if blue p then (0, 0, 255)
                 else if red p then (255, 0, 0) else rgbAt (data img) p) \<and>
            alphaAt (data (visualizationImage res)) p = alphaAt (data img) p"
    using px(1,2,3)
    by (simp add: processImage_valid[OF assms(5)] L_def green_def blue_def red_def)
  have bg: "\<not> (blue p \<and> green p)"
    unfolding blue_def green_def using chain(1,3) by blast
  have sep: "\<not> (red p \<and> blue p) \<and> \<not> (red p \<and> green p)"
    if le: "blackPixelBrightnessThreshold params \<le> brightnessThreshold params"
  proof -
    have "\<not> initialMask L ! p" if r: "red p"
    proof
      assume i: "initialMask L ! p"
      have p': "p < height img * width img" using assms(6) by (simp add: mult.commute)
      from chain(7) r have "hsvV (hsvLoop (data img) ! p) < blackPixelBrightnessThreshold params"
        by (simp add: red_def isBlackPixel_def)
      moreover from chain(5)[OF i]
      have "brightnessThreshold params < hsvV (hsvLoop (data img) ! p)"
        using index_cell(3)[OF p'] by (simp add: passesTests_def)
      ultimately show False using le by simp
    qed
    then show ?thesis
      unfolding blue_def green_def using chain(1,2) by blast
  qed
  from out bg sep show ?thesis by blast
qed

theorem colour_coding_witness:
  "validImageData blackWhiteRow \<and> 1 < width blackWhiteRow * height blackWhiteRow \<and>
   blackPixelBrightnessThreshold defaultParams \<le> brightnessThreshold defaultParams \<and>
   \<not> (blackPixelsMask (processImageLocals blackWhiteRow defaultParams) ! 1 \<and>
      initialMask (processImageLocals blackWhiteRow defaultParams) ! 1 \<and>
      isNearBlackPixelOptimized (blackPixelsMask (processImageLocals blackWhiteRow defaultParams))
        (width blackWhiteRow) (height blackWhiteRow) (1 mod width blackWhiteRow)
        (1 div width blackWhiteRow) (structuringElementSize defaultParams)) \<and>
   \<not> (blackPixelsMask (processImageLocals blackWhiteRow defaultParams) ! 1 \<and>
      openedMask (processImageLocals blackWhiteRow defaultParams) ! 1)"
proof -
  have v: "validImageData blackWhiteRow" by (simp add: validImageData_def blackWhiteRow_def)
  have p: "1 < width blackWhiteRow * height blackWhiteRow" by (simp add: blackWhiteRow_def)
  have le: "blackPixelBrightnessThreshold defaultParams \<le> brightnessThreshold defaultParams"
    by (simp add: defaultParams_def)
  from colour_coding[OF v p, of defaultParams] le v p show ?thesis by blast
qed

text \<open>
  The claim as stated fails when the two brightness thresholds overlap. With a black-pixel
  brightness threshold of 90 the light-gray pixel is marked black (the red rule applies),
  it is also an initial candidate near a black pixel, itself (the blue rule applies), and
  it is not green; its colour in the visualization is blue, not red.
\<close>

theorem colour_coding_counterexample:
  "blackPixelsMask (processImageLocals grayPixel overlappingParams) ! 0 \<and>
   initialMask (processImageLocals grayPixel overlappingParams) ! 0 \<and>
   \<not> openedMask (processImageLocals grayPixel overlappingParams) ! 0 \<and>
   \<not> isl (processImage grayPixel overlappingParams) \<and>
   rgbAt (data (visualizationImage (projr (processImage grayPixel overlappingParams)))) 0
     = (0, 0, 255) \<and>
   rgbAt (data (visualizationImage (projr (processImage grayPixel overlappingParams)))) 0
     \<noteq> (255, 0, 0)"
proof -
  have v: "validImageData grayPixel" by (simp add: validImageData_def grayPixel_def)
  show ?thesis
    using grayPixel_masks by (simp add: processImage_valid[OF v])
qed

subsection \<open>Degenerate rasters\<close>

text \<open>
  Claim C9, as amended. For a fully transparent raster of positive width and height,
  processing completes without error, every pixel counter of the statistics is zero, and
  the cleaned and the visualization raster are identical to the source raster.
\<close>

theorem degenerate_input:
  fixes img :: ImageData and params :: "'a ProcessingParams_scheme"
  assumes "validImageData img"
    and "\<forall>p<width img * height img. alphaAt (data img) p = 0"
  shows "\<exists>res. processImage img params = Inr res \<and>
           processedImage res = img \<and> visualizationImage res = img \<and>
           brightPixels (stats res) = 0 \<and> lowSaturationPixels (stats res) = 0 \<and>
           candidateArtifacts (stats res) = 0 \<and> lowSaturationAreas (stats res) = 0 \<and>
           nearBlackPixels (stats res) = 0 \<and> replacedPixels (stats res) = 0 \<and>
           blackPixels (stats res) = 0"
proof -
  from assms(1) have shape: "length (data img) = 4 * width img * height img"
    by (simp add: validImageData_def)
  have clear: "alphaAt (data img) p = 0" if "p < width img * height img" for p
    using assms(2) that by blast
  note t = pipeline_transparent[OF shape clear, of params]
  show ?thesis
    by (simp add: processImage_valid[OF assms(1)] t zero_counters)
qed

theorem degenerate_input_witness:
  "validImageData clearPixel \<and> width clearPixel * height clearPixel = 1 \<and>
   alphaAt (data clearPixel) 0 = 0 \<and>
   (\<exists>res. processImage clearPixel defaultParams = Inr res \<and>
           processedImage res = clearPixel \<and> visualizationImage res = clearPixel \<and>
           brightPixels (stats res) = 0 \<and> lowSaturationPixels (stats res) = 0 \<and>
           candidateArtifacts (stats res) = 0 \<and> lowSaturationAreas (stats res) = 0 \<and>
           nearBlackPixels (stats res) = 0 \<and> replacedPixels (stats res) = 0 \<and>
           blackPixels (stats res) = 0)"
proof -
  have v: "validImageData clearPixel" by (simp add: validImageData_def clearPixel_def)
  have c: "\<forall>p<width clearPixel * height clearPixel. alphaAt (data clearPixel) p = 0"
    by (simp add: clearPixel_def alphaAt_def)
  have n: "width clearPixel * height clearPixel = 1" by (simp add: clearPixel_def)
  have a: "alphaAt (data clearPixel) 0 = 0" by (simp add: clearPixel_def alphaAt_def)
  from degenerate_input[OF v c, of defaultParams] v n a show ?thesis by blast
qed

text \<open>
  The claim as stated fails for a zero-size raster: every loop is empty, and the
  \<open>ImageData\<close> constructor then rejects the empty result buffer, so that no result is
  produced.
\<close>

theorem degenerate_input_counterexample:
  "processImage \<lparr>width = 0, height = 0, data = []\<rparr> defaultParams = Inl InvalidStateError"
proof -
  have "length (result (processImageLocals \<lparr>width = 0, height = 0, data = []\<rparr> defaultParams)) = 0"
    using pipeline_char(6)[of "\<lparr>width = 0, height = 0, data = []\<rparr>" defaultParams] by simp
  then show ?thesis
    by (simp add: processImage_def Let_def newImageData_def)
qed

subsection \<open>The manual whitelist\<close>

text \<open>
  Claim C1 does not hold of the code. The application passes the painted mask to
  \<open>processImage\<close> inside the parameter object, but \<open>processImage\<close> never reads it: the
  result is the same for every mask, and for the opaque white pixel with the default
  parameters and a mask that whitelists the pixel, the cleaned pixel is transparent black
  while the source pixel is opaque white.
\<close>

theorem whitelist_mask_ignored:
  "processImageWithParams img params wl = processImageWithParams img params None \<and>
   (\<exists>res. processImageWithParams whitePixel defaultParams (Some [True]) = Inr res \<and>
      pixelAt (data (processedImage res)) 0 = (0, 0, 0, 0) \<and>
      pixelAt (data whitePixel) 0 = (255, 255, 255, 255))"
proof -
  let ?P = "ProcessingParams.extend defaultParams (ParamsWithWhitelist.fields (Some [True]))"
  have v: "validImageData whitePixel" by (simp add: validImageData_def whitePixel_def)
  have shape: "length (data whitePixel) = 4 * width whitePixel * height whitePixel"
    by (simp add: whitePixel_def)
  have p: "0 < width whitePixel * height whitePixel" by (simp add: whitePixel_def)
  have o: "openedMask (processImageLocals whitePixel ?P) ! 0"
    by (simp add: whitePixel_masks(4) extend_fields defaultParams_def)
  have "pixelAt (result (processImageLocals whitePixel ?P)) 0 = (0, 0, 0, 0)"
    using pixel_char(1)[OF shape p, of ?P] o by simp
  then have "\<exists>res. processImageWithParams whitePixel defaultParams (Some [True]) = Inr res \<and>
      pixelAt (data (processedImage res)) 0 = (0, 0, 0, 0)"
    by (simp add: processImageWithParams_def Let_def processImage_valid[OF v])
  moreover have "pixelAt (data whitePixel) 0 = (255, 255, 255, 255)"
    by (simp add: pixelAt_def whitePixel_def)
  ultimately show ?thesis
    using processImageWithParams_ignores_mask[of img params wl None] by blast
qed

subsection \<open>Local mean saturation\<close>

text \<open>
  What the two loops compute: the saturation total of the non-transparent in-bounds
  pixels of the window, divided by the number of in-bounds pixels of the window.
\<close>

lemma calculateLocalMeanSaturation_clipped:
  "calculateLocalMeanSaturation dat hsvs w h x y K =
     (if card (clippedWindow y h \<lfloor>K / 2\<rfloor>) * card (clippedWindow x w \<lfloor>K / 2\<rfloor>) = 0 then 0
      else (\<Sum>ky\<in>clippedWindow y h \<lfloor>K / 2\<rfloor>. \<Sum>kx\<in>clippedWindow x w \<lfloor>K / 2\<rfloor>.
              (if alphaAt dat (ky * w + kx) \<noteq> 0 then hsvS (hsvs ! (ky * w + kx)) else 0))
           / real (card (clippedWindow y h \<lfloor>K / 2\<rfloor>) * card (clippedWindow x w \<lfloor>K / 2\<rfloor>)))"
proof -
  have "(\<Sum>ky\<leftarrow>kernelRange y h \<lfloor>K / 2\<rfloor>. \<Sum>kx\<leftarrow>kernelRange x w \<lfloor>K / 2\<rfloor>. satTerm dat hsvs w ky kx)
      = (\<Sum>ky\<in>clippedWindow y h \<lfloor>K / 2\<rfloor>. \<Sum>kx\<in>clippedWindow x w \<lfloor>K / 2\<rfloor>.
              (if alphaAt dat (ky * w + kx) \<noteq> 0 then hsvS (hsvs ! (ky * w + kx)) else 0))"
    by (simp only: sum_list_kernelRange satTerm_def alphaAt_def)
  then show ?thesis
    by (simp only: calculateLocalMeanSaturation_eq Let_def length_kernelRange) auto
qed

text \<open>
  Claim C2 does not hold of the code. The comments of \<open>calculateLocalMeanSaturation\<close>
  announce the zero-padded average of OpenCV's blur, which counts every pixel of the
  kernel, and the claim says so: out-of-bounds samples count in the denominator. The
  loops, however, are clipped to the image and \<open>count\<close> is incremented only inside them, so
  that at a border pixel the total is divided by the in-bounds pixel count. For the single
  opaque red pixel and a kernel of size 3 the code returns 100, where the zero-padded
  average over the nine cells of the kernel is \<open>100 / 9\<close>.
\<close>

theorem local_mean_saturation_not_zero_padded:
  "calculateLocalMeanSaturation (data redPixel) (hsvLoop (data redPixel)) 1 1 0 0 3 = 100 \<and>
   zeroPaddedMeanSaturation (data redPixel) (hsvLoop (data redPixel)) 1 1 0 0 3 = 100 / 9 \<and>
   calculateLocalMeanSaturation (data redPixel) (hsvLoop (data redPixel)) 1 1 0 0 3
     \<noteq> zeroPaddedMeanSaturation (data redPixel) (hsvLoop (data redPixel)) 1 1 0 0 3"
proof -
  have a: "calculateLocalMeanSaturation (data redPixel) [(0, 100, 100)] (Suc 0) (Suc 0) 0 0 3 = 100"
    by (simp add: calculateLocalMeanSaturation_eq kernelRange_def satTerm_def hsvS_def
          redPixel_def Let_def)
  have b: "zeroPaddedMeanSaturation (data redPixel) [(0, 100, 100)] (Suc 0) (Suc 0) 0 0 3 = 100 / 9"
    by (simp add: zeroPaddedMeanSaturation_def Let_def window_single satTerm_def hsvS_def
          redPixel_def)
  show ?thesis by (simp add: hsv_redPixel a b)
qed

end
